theory Spec2Isabelle
  imports Main
begin

section \<open>The search engine of PuzzleSolver.py\<close>

text \<open>
  The embedding follows \<^verbatim>\<open>src/PuzzleSolver.py\<close>: the constants, \<^verbatim>\<open>is_solvable\<close>,
  \<^verbatim>\<open>manhattan_distance\<close> and \<^verbatim>\<open>a_star_solver\<close>. A puzzle state is a Python list (or
  tuple) of ints, modelled as \<open>int list\<close>; Python exceptions are values of \<open>py_error\<close>.
\<close>

subsection \<open>Constants\<close>

definition GRID_SIZE :: nat where
  "GRID_SIZE = 3"

definition BLANK_TILE :: int where
  "BLANK_TILE = - 1"

datatype py_error = ValueError | IndexError | KeyError

subsection \<open>is_solvable\<close>

text \<open>
  \<^verbatim>\<open>sum(1 for i in range(len(indices)) for j in range(i + 1, len(indices))
        if indices[i] > indices[j])\<close>
\<close>

definition count_inversions :: "int list \<Rightarrow> int" where
  "count_inversions indices =
     sum_list [1. i \<leftarrow> [0 ..< length indices], j \<leftarrow> [i + 1 ..< length indices],
                  indices ! i > indices ! j]"

definition is_solvable :: "int list \<Rightarrow> bool" where
  "is_solvable tiles =
     (let indices = filter (\<lambda>tile. tile \<noteq> BLANK_TILE) tiles;
          inversions = count_inversions indices
      in inversions mod 2 = 0)"

subsection \<open>manhattan_distance\<close>

text \<open>\<^verbatim>\<open>list.index\<close>: the first position of a value, ValueError when it is absent.\<close>

fun list_index :: "int list \<Rightarrow> int \<Rightarrow> py_error + nat" where
  "list_index [] v = Inl ValueError"
| "list_index (x # xs) v =
     (if x = v then Inr 0
      else (case list_index xs v of Inl e \<Rightarrow> Inl e | Inr k \<Rightarrow> Inr (Suc k)))"

text \<open>One summand of the heuristic, for the tile at position \<open>i\<close> of the state.\<close>

definition tile_distance :: "int list \<Rightarrow> nat \<Rightarrow> int \<Rightarrow> py_error + int" where
  "tile_distance goal i tile =
     (case list_index goal tile of
        Inl e \<Rightarrow> Inl e
      | Inr k \<Rightarrow>
          Inr (\<bar>int (k mod GRID_SIZE) - int (i mod GRID_SIZE)\<bar> +
               \<bar>int (k div GRID_SIZE) - int (i div GRID_SIZE)\<bar>))"

text \<open>\<^verbatim>\<open>sum\<close> over a generator whose items may raise: the first raise ends the sum.\<close>

fun sum_results :: "(py_error + int) list \<Rightarrow> py_error + int" where
  "sum_results [] = Inr 0"
| "sum_results (r # rs) =
     (case r of
        Inl e \<Rightarrow> Inl e
      | Inr v \<Rightarrow> (case sum_results rs of Inl e \<Rightarrow> Inl e | Inr w \<Rightarrow> Inr (v + w)))"

definition manhattan_distance :: "int list \<Rightarrow> int list \<Rightarrow> py_error + int" where
  "manhattan_distance state goal =
     sum_results [tile_distance goal i tile. (i, tile) \<leftarrow> enumerate 0 state,
                                             tile \<noteq> BLANK_TILE]"

subsection \<open>a_star_solver\<close>

text \<open>
  The local variables of the solver. The priority queue holds pairs (priority, state);
  it is kept as the list of its entries in insertion order.
\<close>

record search =
  open_set :: "(int \<times> int list) list"
  came_from :: "int list \<rightharpoonup> int list"
  g_score :: "int list \<rightharpoonup> int"
  f_score :: "int list \<rightharpoonup> int"

text \<open>Python's order on tuples of ints: lexicographic, a proper prefix is smaller.\<close>

fun tuple_less :: "int list \<Rightarrow> int list \<Rightarrow> bool" where
  "tuple_less [] [] = False"
| "tuple_less [] (y # ys) = True"
| "tuple_less (x # xs) [] = False"
| "tuple_less (x # xs) (y # ys) = (x < y \<or> (x = y \<and> tuple_less xs ys))"

definition entry_less :: "int \<times> int list \<Rightarrow> int \<times> int list \<Rightarrow> bool" where
  "entry_less a b = (fst a < fst b \<or> (fst a = fst b \<and> tuple_less (snd a) (snd b)))"

text \<open>
  \<^verbatim>\<open>PriorityQueue.get\<close> removes a least entry. The order on entries is total, so two
  least entries are equal and it does not matter which of them leaves the queue.
\<close>

fun pq_min :: "int \<times> int list \<Rightarrow> (int \<times> int list) list \<Rightarrow> int \<times> int list" where
  "pq_min m [] = m"
| "pq_min m (e # es) = pq_min (if entry_less e m then e else m) es"

definition pq_get :: "(int \<times> int list) list \<Rightarrow> (int \<times> int list) \<times> (int \<times> int list) list" where
  "pq_get q = (let m = pq_min (hd q) (tl q) in (m, remove1 m q))"

definition pq_put :: "int \<times> int list \<Rightarrow> (int \<times> int list) list \<Rightarrow> (int \<times> int list) list" where
  "pq_put e q = q @ [e]"

text \<open>
  The inner loop \<^verbatim>\<open>while current in came_from\<close> that walks the predecessor links. It
  is a loop over a dictionary, so nothing in its text bounds it: not returning is \<open>None\<close>.
\<close>

partial_function (option) reconstruct ::
  "(int list \<rightharpoonup> int list) \<Rightarrow> int list \<Rightarrow> int list list \<Rightarrow> int list list option" where
  "reconstruct cf current path =
     (case cf current of
        None \<Rightarrow> Some (rev path)
      | Some previous \<Rightarrow> reconstruct cf previous (path @ [current]))"

declare reconstruct.simps [code]

definition directions :: "(int \<times> int) list" where
  "directions = [(- 1, 0), (1, 0), (0, - 1), (0, 1)]"

text \<open>
  The body of the \<^verbatim>\<open>for dr, dc in ...\<close> loop for one direction. The tuple assignment
  reads \<^verbatim>\<open>neighbor[swap_idx]\<close> first, which raises IndexError beyond the end of the list;
  \<^verbatim>\<open>g_score[current]\<close> raises KeyError on a missing key; \<^verbatim>\<open>manhattan_distance\<close> may
  raise ValueError.
\<close>

definition visit ::
  "int list \<Rightarrow> int list \<Rightarrow> nat \<Rightarrow> int \<times> int \<Rightarrow> search \<Rightarrow> py_error + search" where
  "visit goal current blank_idx d s =
     (let row = int (blank_idx div GRID_SIZE);
          col = int (blank_idx mod GRID_SIZE);
          nr = row + fst d;
          nc = col + snd d
      in if 0 \<le> nr \<and> nr < int GRID_SIZE \<and> 0 \<le> nc \<and> nc < int GRID_SIZE then
           (let swap_idx = nat (nr * int GRID_SIZE + nc)
            in if length current \<le> swap_idx then Inl IndexError
               else
                 (let neighbor = current[blank_idx := current ! swap_idx,
                                         swap_idx := current ! blank_idx]
                  in case g_score s current of
                       None \<Rightarrow> Inl KeyError
                     | Some g \<Rightarrow>
                         (let tentative_g_score = g + 1
                          in if (case g_score s neighbor of
                                   None \<Rightarrow> True
                                 | Some g' \<Rightarrow> tentative_g_score < g')
                             then
                               (case manhattan_distance neighbor goal of
                                  Inl e \<Rightarrow> Inl e
                                | Inr h \<Rightarrow>
                                    Inr (s\<lparr>came_from := (came_from s)(neighbor \<mapsto> current),
                                           g_score := (g_score s)(neighbor \<mapsto> tentative_g_score),
                                           f_score := (f_score s)(neighbor \<mapsto> tentative_g_score + h),
                                           open_set := pq_put (tentative_g_score + h, neighbor)
                                                         (open_set s)\<rparr>))
                             else Inr s)))
         else Inr s)"

fun visit_all ::
  "int list \<Rightarrow> int list \<Rightarrow> nat \<Rightarrow> (int \<times> int) list \<Rightarrow> search \<Rightarrow> py_error + search" where
  "visit_all goal current blank_idx [] s = Inr s"
| "visit_all goal current blank_idx (d # ds) s =
     (case visit goal current blank_idx d s of
        Inl e \<Rightarrow> Inl e
      | Inr s' \<Rightarrow> visit_all goal current blank_idx ds s')"

text \<open>
  The part of one iteration of the main loop after the goal test: find the blank and
  visit the four neighbours.
\<close>

definition expand :: "int list \<Rightarrow> int list \<Rightarrow> search \<Rightarrow> py_error + search" where
  "expand goal current s =
     (case list_index current BLANK_TILE of
        Inl e \<Rightarrow> Inl e
      | Inr blank_idx \<Rightarrow> visit_all goal current blank_idx directions s)"

text \<open>The main loop \<^verbatim>\<open>while not open_set.empty()\<close>.\<close>

partial_function (option) a_star_loop ::
  "int list \<Rightarrow> search \<Rightarrow> (py_error + int list list) option" where
  "a_star_loop goal s =
     (if open_set s = [] then Some (Inr [])
      else
        (let current = snd (fst (pq_get (open_set s)));
             s1 = s\<lparr>open_set := snd (pq_get (open_set s))\<rparr>
         in if current = goal then
              (case reconstruct (came_from s1) current [] of
                 None \<Rightarrow> None
               | Some path \<Rightarrow> Some (Inr path))
            else
              (case expand goal current s1 of
                 Inl e \<Rightarrow> Some (Inl e)
               | Inr s2 \<Rightarrow> a_star_loop goal s2)))"

declare a_star_loop.simps [code]

definition a_star_solver :: "int list \<Rightarrow> int list \<Rightarrow> (py_error + int list list) option" where
  "a_star_solver initial goal =
     (case manhattan_distance initial goal of
        Inl e \<Rightarrow> Some (Inl e)
      | Inr h \<Rightarrow>
          a_star_loop goal
            \<lparr>open_set = pq_put (0, initial) [],
             came_from = Map.empty,
             g_score = [initial \<mapsto> 0],
             f_score = [initial \<mapsto> h]\<rparr>)"

subsection \<open>The rules of the specification\<close>

text \<open>
  The specification counts inversions as the pairs of positions \<open>i < j\<close> of the sequence
  of non-blank tiles whose tiles are out of order.
\<close>

fun spec_inversions :: "int list \<Rightarrow> nat" where
  "spec_inversions [] = 0"
| "spec_inversions (x # xs) = length (filter (\<lambda>y. x > y) xs) + spec_inversions xs"

text \<open>
  The blank's row distance from its goal row in a grid of width \<open>N\<close>, for the goal
  ordering that the program builds (tiles in order, blank last, so the goal row is the
  last one).
\<close>

definition blank_row_distance :: "nat \<Rightarrow> int list \<Rightarrow> nat" where
  "blank_row_distance N c = (N - 1) - length (takeWhile (\<lambda>t. t \<noteq> BLANK_TILE) c) div N"

text \<open>The width-dependent parity rule, as the specification words it.\<close>

definition spec_parity_rule :: "nat \<Rightarrow> int list \<Rightarrow> bool" where
  "spec_parity_rule N c =
     (let inv = spec_inversions (filter (\<lambda>tile. tile \<noteq> BLANK_TILE) c)
      in if odd N then even inv else even (inv + blank_row_distance N c))"

text \<open>The number of configurations a call returned, when it returned.\<close>

definition solution_length :: "(py_error + int list list) option \<Rightarrow> nat option" where
  "solution_length r = (case r of Some (Inr path) \<Rightarrow> Some (length path) | _ \<Rightarrow> None)"

subsection \<open>Configurations and moves\<close>

text \<open>
  A valid configuration holds the blank and every tile 1 .. GRID_SIZE * GRID_SIZE - 1
  exactly once.
\<close>

definition all_tiles :: "int list" where
  "all_tiles = BLANK_TILE # [1 .. int (GRID_SIZE * GRID_SIZE) - 1]"

definition valid_config :: "int list \<Rightarrow> bool" where
  "valid_config c = (distinct c \<and> set c = set all_tiles)"

text \<open>Two cells of the grid, given by their row-major positions, are orthogonal neighbours.\<close>

definition adjacent :: "nat \<Rightarrow> nat \<Rightarrow> bool" where
  "adjacent a b =
     ((a div GRID_SIZE = b div GRID_SIZE \<and>
         (a mod GRID_SIZE = b mod GRID_SIZE + 1 \<or> b mod GRID_SIZE = a mod GRID_SIZE + 1)) \<or>
      (a mod GRID_SIZE = b mod GRID_SIZE \<and>
         (a div GRID_SIZE = b div GRID_SIZE + 1 \<or> b div GRID_SIZE = a div GRID_SIZE + 1)))"

text \<open>
  A legal move swaps the blank with the tile of an orthogonally adjacent cell of the
  grid.
\<close>

definition legal_move :: "int list \<Rightarrow> int list \<Rightarrow> bool" where
  "legal_move c c' =
     (\<exists>b \<in> set [0 ..< length c]. \<exists>k \<in> set [0 ..< length c].
        c ! b = BLANK_TILE \<and> adjacent b k \<and>
        b div GRID_SIZE < GRID_SIZE \<and> k div GRID_SIZE < GRID_SIZE \<and>
        c' = c[b := c ! k, k := c ! b])"

text \<open>A sequence of configurations in which each one is a legal move from the one before.\<close>

fun moves_from :: "int list \<Rightarrow> int list list \<Rightarrow> bool" where
  "moves_from c [] = True"
| "moves_from c (x # xs) = (legal_move c x \<and> moves_from x xs)"

definition reachable :: "int list \<Rightarrow> int list \<Rightarrow> bool" where
  "reachable start goal = legal_move\<^sup>*\<^sup>* start goal"

definition min_moves :: "int list \<Rightarrow> int list \<Rightarrow> nat" where
  "min_moves start goal = (LEAST n. (legal_move ^^ n) start goal)"

subsection \<open>Notions used in the proofs\<close>

text \<open>The cell the blank moves to in direction \<open>d\<close>; \<open>None\<close> when it is off the grid.\<close>

definition target :: "nat \<Rightarrow> int \<times> int \<Rightarrow> nat option" where
  "target blank_idx d =
     (let nr = int (blank_idx div GRID_SIZE) + fst d;
          nc = int (blank_idx mod GRID_SIZE) + snd d
      in if 0 \<le> nr \<and> nr < int GRID_SIZE \<and> 0 \<le> nc \<and> nc < int GRID_SIZE
         then Some (nat (nr * int GRID_SIZE + nc)) else None)"

text \<open>The four assignments made when a neighbour improves.\<close>

definition relax :: "int list \<Rightarrow> int list \<Rightarrow> int \<Rightarrow> int \<Rightarrow> search \<Rightarrow> search" where
  "relax current neighbor g h s =
     s\<lparr>came_from := (came_from s)(neighbor \<mapsto> current),
       g_score := (g_score s)(neighbor \<mapsto> g),
       f_score := (f_score s)(neighbor \<mapsto> g + h),
       open_set := pq_put (g + h, neighbor) (open_set s)\<rparr>"

text \<open>The lists a search from \<open>initial\<close> can meet: swaps keep the length and the elements.\<close>

definition states_of :: "int list \<Rightarrow> int list set" where
  "states_of initial = {xs. length xs = length initial \<and> set xs = set initial}"

text \<open>
  What every iteration of the main loop keeps, for any two lists: queued states have a
  g-score, g-scores are not negative, and a predecessor link goes to a state of smaller
  g-score.
\<close>

definition inv_basic :: "int list \<Rightarrow> search \<Rightarrow> bool" where
  "inv_basic initial s =
     ((\<forall>e \<in> set (open_set s). snd e \<in> dom (g_score s)) \<and>
      dom (g_score s) \<subseteq> states_of initial \<and>
      (\<forall>n v. g_score s n = Some v \<longrightarrow> 0 \<le> v) \<and>
      (\<forall>n p. came_from s n = Some p \<longrightarrow>
         (\<exists>v w. g_score s n = Some v \<and> g_score s p = Some w \<and> w < v)))"

text \<open>The quantities that decrease along the main loop.\<close>

definition unseen :: "int list \<Rightarrow> search \<Rightarrow> nat" where
  "unseen initial s = card (states_of initial - dom (g_score s))"

definition g_total :: "search \<Rightarrow> nat" where
  "g_total s = (\<Sum>n \<in> dom (g_score s). nat (the (g_score s n)))"

definition advanced :: "int list \<Rightarrow> search \<Rightarrow> search \<Rightarrow> bool" where
  "advanced initial s s' =
     (unseen initial s' < unseen initial s \<or>
      (unseen initial s' = unseen initial s \<and> g_total s' < g_total s))"

text \<open>
  The list that the walk along the predecessor links collects from \<open>current\<close>: the
  states met, \<open>current\<close> first, up to the state without a link, which is left out.
\<close>

fun links :: "(int list \<rightharpoonup> int list) \<Rightarrow> int list \<Rightarrow> int list list \<Rightarrow> bool" where
  "links cf current [] = (cf current = None)"
| "links cf current (x # xs) = (x = current \<and> (\<exists>p. cf current = Some p \<and> links cf p xs))"

text \<open>A call that ended by raising an exception.\<close>

definition raised :: "(py_error + int list list) option \<Rightarrow> bool" where
  "raised r = (case r of Some (Inl e) \<Rightarrow> True | _ \<Rightarrow> False)"

text \<open>The variables of the solver when the main loop is entered.\<close>

definition init_search :: "int list \<Rightarrow> int \<Rightarrow> search" where
  "init_search initial h =
     \<lparr>open_set = pq_put (0, initial) [], came_from = Map.empty,
      g_score = [initial \<mapsto> 0], f_score = [initial \<mapsto> h]\<rparr>"

text \<open>The Manhattan distance between two cells of the grid, given by their positions.\<close>

definition grid_distance :: "nat \<Rightarrow> nat \<Rightarrow> int" where
  "grid_distance a b =
     \<bar>int (a mod GRID_SIZE) - int (b mod GRID_SIZE)\<bar> +
     \<bar>int (a div GRID_SIZE) - int (b div GRID_SIZE)\<bar>"

text \<open>The position of a tile in a configuration.\<close>

definition position :: "int list \<Rightarrow> int \<Rightarrow> nat" where
  "position c t = length (takeWhile (\<lambda>x. x \<noteq> t) c)"

text \<open>
  The heuristic as the specification words it: the sum, over every non-blank tile, of the
  Manhattan distance between its position in the state and its position in the goal.
\<close>

definition spec_manhattan :: "int list \<Rightarrow> int list \<Rightarrow> int" where
  "spec_manhattan state goal =
     (\<Sum>t \<leftarrow> [1 .. int (GRID_SIZE * GRID_SIZE) - 1].
        grid_distance (position state t) (position goal t))"

text \<open>The same sum taken over the cells of the state, as the program takes it.\<close>

definition cell_sum :: "int list \<Rightarrow> int list \<Rightarrow> int" where
  "cell_sum goal c =
     (\<Sum>j \<in> {0 ..< length c}.
        if c ! j \<noteq> BLANK_TILE then grid_distance (position goal (c ! j)) j else 0)"

text \<open>The heuristic value of a configuration, where \<open>manhattan_distance\<close> returns.\<close>

definition heuristic :: "int list \<Rightarrow> int list \<Rightarrow> int" where
  "heuristic goal c = (case manhattan_distance c goal of Inl e \<Rightarrow> 0 | Inr h \<Rightarrow> h)"

text \<open>
  The predecessor links: the start has g-score 0 and no link, every other state with a
  g-score has one, and a link joins a state to one it is a legal move away from.
\<close>

definition inv_links :: "int list \<Rightarrow> search \<Rightarrow> bool" where
  "inv_links initial s =
     (g_score s initial = Some 0 \<and> came_from s initial = None \<and>
      dom (g_score s) = insert initial (dom (came_from s)) \<and>
      (\<forall>n p. came_from s n = Some p \<longrightarrow> legal_move p n))"

text \<open>
  The queue: the priority of an entry is at least the current f-value of its state
  (the start entered with priority 0), and the goal, once it has a g-score, is queued.
\<close>

definition inv_queue :: "int list \<Rightarrow> int list \<Rightarrow> search \<Rightarrow> bool" where
  "inv_queue initial goal s =
     ((\<forall>e \<in> set (open_set s).
         snd e = initial \<or>
         (\<exists>v. g_score s (snd e) = Some v \<and> v + heuristic goal (snd e) \<le> fst e)) \<and>
      (goal \<in> dom (g_score s) \<longrightarrow> goal \<in> snd ` set (open_set s)))"

text \<open>
  A state with a g-score is settled when an entry for it with at most its current
  f-value is queued, or when every legal move from it leads to a state whose g-score is
  at most one more.
\<close>

definition settled :: "int list \<Rightarrow> search \<Rightarrow> int list \<Rightarrow> bool" where
  "settled goal s n =
     (\<forall>v. g_score s n = Some v \<longrightarrow>
        (\<exists>e \<in> set (open_set s). snd e = n \<and> fst e \<le> v + heuristic goal n) \<or>
        (\<forall>m. legal_move n m \<longrightarrow> (\<exists>w. g_score s m = Some w \<and> w \<le> v + 1)))"

text \<open>The invariant while \<open>current\<close> is being expanded, and between iterations.\<close>

definition expanding :: "int list \<Rightarrow> int list \<Rightarrow> int list \<Rightarrow> search \<Rightarrow> bool" where
  "expanding initial goal current s =
     (inv_basic initial s \<and> inv_links initial s \<and> inv_queue initial goal s \<and>
      (\<forall>n. n \<noteq> current \<longrightarrow> settled goal s n))"

definition inv_search :: "int list \<Rightarrow> int list \<Rightarrow> search \<Rightarrow> bool" where
  "inv_search initial goal s =
     (inv_basic initial s \<and> inv_links initial s \<and> inv_queue initial goal s \<and>
      (\<forall>n. settled goal s n))"

text \<open>g-scores only improve.\<close>

definition g_mono :: "search \<Rightarrow> search \<Rightarrow> bool" where
  "g_mono s s' = (\<forall>m w. g_score s m = Some w \<longrightarrow> (\<exists>w'. g_score s' m = Some w' \<and> w' \<le> w))"

text \<open>The inversions between two sequences: pairs with the larger tile in the first.\<close>

definition cross :: "int list \<Rightarrow> int list \<Rightarrow> nat" where
  "cross xs ys = (\<Sum>x \<leftarrow> xs. length (filter (\<lambda>y. x > y) ys))"

section \<open>Properties\<close>

subsection \<open>Inversions\<close>

lemma sum_list_ones_filter:
  "sum_list (concat (map (\<lambda>y. if P y then [1::int] else []) ys)) = int (length (filter P ys))"
  by (induction ys) auto

lemma inversions_row_Suc:
  "[1::int. j \<leftarrow> [Suc i + 1 ..< Suc n], (x # xs) ! Suc i > (x # xs) ! j]
   = [1. j \<leftarrow> [i + 1 ..< n], xs ! i > xs ! j]"
proof -
  have "[Suc i + 1 ..< Suc n] = map Suc [i + 1 ..< n]"
    by (simp add: map_Suc_upt)
  then show ?thesis by (simp add: comp_def map_concat)
qed

lemma inversions_row_0:
  "sum_list [1::int. j \<leftarrow> [0 + 1 ..< Suc (length xs)], (x # xs) ! 0 > (x # xs) ! j]
   = int (length (filter (\<lambda>y. x > y) xs))"
proof -
  have a: "[0 + 1 ..< Suc (length xs)] = map Suc [0 ..< length xs]"
    by (simp add: map_Suc_upt)
  have "sum_list [1::int. j \<leftarrow> [0 + 1 ..< Suc (length xs)], (x # xs) ! 0 > (x # xs) ! j]
        = sum_list (concat (map (\<lambda>y. if x > y then [1::int] else []) (map (\<lambda>j. xs ! j) [0 ..< length xs])))"
    unfolding a by (simp add: comp_def)
  also have "\<dots> = int (length (filter (\<lambda>y. x > y) xs))"
    unfolding map_nth by (rule sum_list_ones_filter)
  finally show ?thesis .
qed

lemma count_inversions_Cons:
  "count_inversions (x # xs) = int (length (filter (\<lambda>y. x > y) xs)) + count_inversions xs"
proof -
  have up: "[0 ..< length (x # xs)] = 0 # map Suc [0 ..< length xs]"
    by (simp add: upt_conv_Cons map_Suc_upt del: upt_Suc)
  show ?thesis
    unfolding count_inversions_def up
    using inversions_row_0 [where xs=xs and x=x] inversions_row_Suc [where n="length xs" and x=x and xs=xs]
    by (simp add: comp_def del: upt_Suc)
qed

lemma count_inversions_spec: "count_inversions xs = int (spec_inversions xs)"
  by (induction xs) (simp_all add: count_inversions_Cons, simp add: count_inversions_def)

subsection \<open>When the heuristic returns\<close>

lemma list_index_Inr:
  "v \<in> set xs \<Longrightarrow> \<exists>k. list_index xs v = Inr k \<and> k < length xs \<and> xs ! k = v"
  by (induction xs) auto

lemma list_index_Inl: "v \<notin> set xs \<Longrightarrow> list_index xs v = Inl ValueError"
  by (induction xs) auto

lemma sum_results_Inr: "sum_results (map Inr vs) = Inr (sum_list vs)"
  by (induction vs) auto

lemma sum_results_all_Inr:
  "\<forall>r \<in> set rs. \<exists>v. r = Inr v \<Longrightarrow> \<exists>h. sum_results rs = Inr h"
  by (induction rs) auto

lemma manhattan_distance_returns:
  assumes "\<forall>t \<in> set state. t \<noteq> BLANK_TILE \<longrightarrow> t \<in> set goal"
  shows "\<exists>h. manhattan_distance state goal = Inr h"
  unfolding manhattan_distance_def
proof (rule sum_results_all_Inr, clarsimp split: if_splits)
  fix i tile
  assume "(i, tile) \<in> set (enumerate 0 state)" "tile \<noteq> BLANK_TILE"
  then have "tile \<in> set goal" using assms by (auto simp: in_set_enumerate_eq)
  then show "\<exists>v. tile_distance goal i tile = Inr v"
    using list_index_Inr [of tile goal] by (auto simp: tile_distance_def)
qed

lemma pq_get_single: "pq_get [e] = (e, [])"
  by (simp add: pq_get_def)

subsection \<open>Start equal to goal, and the verdict of is_solvable\<close>

text \<open>
  Claim C5. Solving a configuration against itself returns the empty sequence: the first
  entry that leaves the queue is the start, it equals the goal, and no predecessor link
  exists yet. This holds for every list, valid configuration or not.
\<close>

theorem a_star_solver_same: "a_star_solver start start = Some (Inr [])"
proof -
  obtain h where h: "manhattan_distance start start = Inr h"
    using manhattan_distance_returns [of start start] by auto
  show ?thesis
    unfolding a_star_solver_def h
    by (simp add: a_star_loop.simps [of start] pq_put_def pq_get_single reconstruct.simps)
qed

text \<open>
  Claim C10. Two configurations with the same sequence of non-blank tiles get the same
  verdict from \<open>is_solvable\<close>: the position of the blank has no influence.
\<close>

theorem is_solvable_blank_independent:
  "filter (\<lambda>t. t \<noteq> BLANK_TILE) c1 = filter (\<lambda>t. t \<noteq> BLANK_TILE) c2 \<Longrightarrow>
   is_solvable c1 = is_solvable c2"
  by (simp add: is_solvable_def)

theorem is_solvable_blank_independent_witness:
  "filter (\<lambda>t. t \<noteq> BLANK_TILE) [1, 2, 3, 4, 5, 6, 7, 8, BLANK_TILE]
     = filter (\<lambda>t. t \<noteq> BLANK_TILE) [1, 2, 3, 4, BLANK_TILE, 5, 6, 7, 8]
   \<and> is_solvable [1, 2, 3, 4, 5, 6, 7, 8, BLANK_TILE]
     = is_solvable [1, 2, 3, 4, BLANK_TILE, 5, 6, 7, 8]"
proof -
  have h: "filter (\<lambda>t. t \<noteq> BLANK_TILE) [1, 2, 3, 4, 5, 6, 7, 8, BLANK_TILE]
     = filter (\<lambda>t. t \<noteq> BLANK_TILE) [1, 2, 3, 4, BLANK_TILE, 5, 6, 7, 8]"
    by (simp add: BLANK_TILE_def)
  show ?thesis using h is_solvable_blank_independent [OF h] by simp
qed

text \<open>
  Claim C2, as stated, fails for an even width. The 4x4 configuration below is one
  move away from the ordered one (the blank moved up one row): it has three inversions
  and a blank row distance of one, so the width-dependent rule accepts it, and
  \<open>is_solvable\<close> rejects it.
\<close>

theorem is_solvable_even_width_counterexample:
  "is_solvable [1, 2, 3, 4, 5, 6, 7, 8, 9, 10, 11, BLANK_TILE, 13, 14, 15, 12]
   \<noteq> spec_parity_rule 4 [1, 2, 3, 4, 5, 6, 7, 8, 9, 10, 11, BLANK_TILE, 13, 14, 15, 12]"
  by (simp add: is_solvable_def spec_parity_rule_def count_inversions_spec
      blank_row_distance_def BLANK_TILE_def)

lemma even_int_mod: "(int n mod 2 = 0) = even n"
  by presburger

lemma is_solvable_iff:
  "is_solvable c = even (spec_inversions (filter (\<lambda>tile. tile \<noteq> BLANK_TILE) c))"
  by (simp add: is_solvable_def count_inversions_spec even_int_mod)

text \<open>
  Claim C2, amended. \<open>is_solvable\<close> returns true exactly when the number of inversions
  among the non-blank tiles is even, whatever the width of the grid; this is the
  specification's rule for every odd width, the program's 3 among them. For the 3x3
  configuration [2,1,3,4,5,6,7,8,blank] it returns false.
\<close>

theorem is_solvable_inversion_parity:
  "is_solvable c = even (spec_inversions (filter (\<lambda>tile. tile \<noteq> BLANK_TILE) c))
   \<and> is_solvable c = spec_parity_rule (2 * k + 1) c
   \<and> \<not> is_solvable [2, 1, 3, 4, 5, 6, 7, 8, BLANK_TILE]"
  by (simp add: is_solvable_iff spec_parity_rule_def) (simp add: BLANK_TILE_def)

text \<open>
  Claim C4, as stated, fails: for start = [1,2,3,4,blank,6,7,5,8] the solver does not
  return a sequence of length 3.
\<close>

theorem scenario_length_counterexample:
  "\<not> (is_solvable [1, 2, 3, 4, BLANK_TILE, 6, 7, 5, 8]
      \<and> solution_length (a_star_solver [1, 2, 3, 4, BLANK_TILE, 6, 7, 5, 8]
                                        [1, 2, 3, 4, 5, 6, 7, 8, BLANK_TILE]) = Some 3)"
  by code_simp

subsection \<open>The priority queue\<close>

lemma pq_min_mem: "pq_min m es \<in> set (m # es)"
  by (induction es arbitrary: m) auto

lemma pq_min_le: "e \<in> set (m # es) \<Longrightarrow> fst (pq_min m es) \<le> fst e"
proof (induction es arbitrary: m e)
  case Nil
  then show ?case by simp
next
  case (Cons a es)
  let ?m = "if entry_less a m then a else m"
  have step: "fst ?m \<le> fst m" "fst ?m \<le> fst a"
    by (auto simp: entry_less_def)
  have least: "fst (pq_min ?m es) \<le> fst ?m"
    using Cons.IH [of ?m ?m] by simp
  from Cons.prems consider "e = m" | "e = a" | "e \<in> set es" by auto
  then show ?case
  proof cases
    case 1
    with step least show ?thesis by simp
  next
    case 2
    with step least show ?thesis by simp
  next
    case 3
    then show ?thesis using Cons.IH [of e ?m] by simp
  qed
qed

lemma pq_get_mem: "q \<noteq> [] \<Longrightarrow> fst (pq_get q) \<in> set q"
  using pq_min_mem [of "hd q" "tl q"] by (cases q) (auto simp: pq_get_def Let_def)

lemma pq_get_le: "q \<noteq> [] \<Longrightarrow> e \<in> set q \<Longrightarrow> fst (fst (pq_get q)) \<le> fst e"
  using pq_min_le [of e "hd q" "tl q"] by (cases q) (auto simp: pq_get_def Let_def)

lemma pq_get_rest_subset: "set (snd (pq_get q)) \<subseteq> set q"
  using set_remove1_subset [of "pq_min (hd q) (tl q)" q] by (simp add: pq_get_def Let_def)

lemma pq_get_rest_length: "q \<noteq> [] \<Longrightarrow> length (snd (pq_get q)) < length q"
proof -
  assume "q \<noteq> []"
  then have "pq_min (hd q) (tl q) \<in> set q" "0 < length q"
    using pq_min_mem [of "hd q" "tl q"] by (cases q; simp)+
  then show ?thesis by (simp add: pq_get_def Let_def length_remove1)
qed

lemma pq_get_rest_cover: "e \<in> set q \<Longrightarrow> e \<noteq> fst (pq_get q) \<Longrightarrow> e \<in> set (snd (pq_get q))"
  by (simp add: pq_get_def Let_def)

subsection \<open>One direction of the expansion\<close>

lemma visit_cases:
  assumes "visit goal cur b d s = r"
  obtains
    (off) "target b d = None" "r = Inr s"
  | (index) k where "target b d = Some k" "length cur \<le> k" "r = Inl IndexError"
  | (key) k where "target b d = Some k" "k < length cur" "g_score s cur = None"
      "r = Inl KeyError"
  | (keep) k g g' where "target b d = Some k" "k < length cur" "g_score s cur = Some g"
      "g_score s (cur[b := cur ! k, k := cur ! b]) = Some g'" "g' \<le> g + 1" "r = Inr s"
  | (raise) k g e where "target b d = Some k" "k < length cur" "g_score s cur = Some g"
      "\<forall>g'. g_score s (cur[b := cur ! k, k := cur ! b]) = Some g' \<longrightarrow> g + 1 < g'"
      "manhattan_distance (cur[b := cur ! k, k := cur ! b]) goal = Inl e" "r = Inl e"
  | (improve) k g h where "target b d = Some k" "k < length cur" "g_score s cur = Some g"
      "\<forall>g'. g_score s (cur[b := cur ! k, k := cur ! b]) = Some g' \<longrightarrow> g + 1 < g'"
      "manhattan_distance (cur[b := cur ! k, k := cur ! b]) goal = Inr h"
      "r = Inr (relax cur (cur[b := cur ! k, k := cur ! b]) (g + 1) h s)"
  using assms
  unfolding visit_def target_def relax_def Let_def
  by (auto split: if_splits option.splits sum.splits)

subsection \<open>The basic invariant and the termination of the search\<close>

lemma list_index_found:
  "list_index xs v = Inr k \<Longrightarrow> k < length xs \<and> xs ! k = v \<and> (\<forall>j < k. xs ! j \<noteq> v)"
proof (induction xs arbitrary: k)
  case Nil
  then show ?case by simp
next
  case (Cons x xs)
  show ?case
  proof (cases "x = v")
    case True
    with Cons.prems show ?thesis by simp
  next
    case False
    with Cons.prems obtain k' where k': "list_index xs v = Inr k'" "k = Suc k'"
      by (auto split: sum.splits)
    with Cons.IH [of k'] False show ?thesis
      by (auto simp: nth_Cons split: nat.splits)
  qed
qed

lemma list_index_error: "list_index xs v = Inl e \<Longrightarrow> e = ValueError"
  by (induction xs) (auto split: if_splits sum.splits)

lemma sum_results_error: "sum_results rs = Inl e \<Longrightarrow> Inl e \<in> set rs"
  by (induction rs) (auto split: sum.splits)

lemma tile_distance_error: "tile_distance goal i tile = Inl e \<Longrightarrow> e = ValueError"
  by (auto simp: tile_distance_def split: sum.splits dest: list_index_error)

lemma manhattan_distance_error: "manhattan_distance state goal = Inl e \<Longrightarrow> e = ValueError"
  unfolding manhattan_distance_def
  by (drule sum_results_error) (auto split: if_splits dest: tile_distance_error [OF sym])

lemma finite_states_of: "finite (states_of initial)"
proof -
  have "states_of initial \<subseteq> {xs. set xs \<subseteq> set initial \<and> length xs = length initial}"
    by (auto simp: states_of_def)
  then show ?thesis
    using finite_lists_length_eq [of "set initial" "length initial"]
    by (rule finite_subset) simp
qed

lemma swap_states_of:
  "c \<in> states_of initial \<Longrightarrow> b < length c \<Longrightarrow> k < length c \<Longrightarrow>
   c[b := c ! k, k := c ! b] \<in> states_of initial"
  by (simp add: states_of_def)

lemma inv_basic_finite_dom: "inv_basic initial s \<Longrightarrow> finite (dom (g_score s))"
  unfolding inv_basic_def using finite_states_of [of initial] by (blast intro: finite_subset)

lemma relax_fields [simp]:
  "g_score (relax cur nb g h s) = (g_score s)(nb \<mapsto> g)"
  "came_from (relax cur nb g h s) = (came_from s)(nb \<mapsto> cur)"
  "open_set (relax cur nb g h s) = open_set s @ [(g + h, nb)]"
  by (simp_all add: relax_def pq_put_def)

lemma inv_basic_relax:
  assumes inv: "inv_basic initial s"
    and cur: "g_score s cur = Some g"
    and nb: "nb \<in> states_of initial"
    and better: "\<forall>g'. g_score s nb = Some g' \<longrightarrow> g + 1 < g'"
  shows "inv_basic initial (relax cur nb (g + 1) h s)"
proof -
  from cur better have ne: "cur \<noteq> nb" by auto
  from inv cur have g0: "0 \<le> g" by (auto simp: inv_basic_def)
  have a: "\<forall>e \<in> set (open_set (relax cur nb (g + 1) h s)). snd e \<in> dom (g_score (relax cur nb (g + 1) h s))"
    using inv by (auto simp: inv_basic_def)
  have b: "dom (g_score (relax cur nb (g + 1) h s)) \<subseteq> states_of initial"
    using inv nb by (auto simp: inv_basic_def)
  have c: "\<forall>n v. g_score (relax cur nb (g + 1) h s) n = Some v \<longrightarrow> 0 \<le> v"
    using inv g0 by (auto simp: inv_basic_def)
  have d: "\<exists>v w. g_score (relax cur nb (g + 1) h s) n = Some v
             \<and> g_score (relax cur nb (g + 1) h s) p = Some w \<and> w < v"
    if link: "came_from (relax cur nb (g + 1) h s) n = Some p" for n p
  proof (cases "n = nb")
    case True
    with link have "p = cur" by simp
    with True ne cur show ?thesis by simp
  next
    case False
    with link have "came_from s n = Some p" by simp
    with inv obtain v w where vw: "g_score s n = Some v" "g_score s p = Some w" "w < v"
      unfolding inv_basic_def by blast
    show ?thesis
    proof (cases "p = nb")
      case True
      with vw better have "g + 1 < w" by simp
      with vw False True show ?thesis by simp
    next
      case False
      with vw \<open>n \<noteq> nb\<close> show ?thesis by simp
    qed
  qed
  from a b c d show ?thesis unfolding inv_basic_def by blast
qed

lemma advanced_relax:
  assumes inv: "inv_basic initial s"
    and cur: "g_score s cur = Some g"
    and nb: "nb \<in> states_of initial"
    and better: "\<forall>g'. g_score s nb = Some g' \<longrightarrow> g + 1 < g'"
  shows "advanced initial s (relax cur nb (g + 1) h s)"
proof (cases "g_score s nb")
  case None
  then have nd: "nb \<notin> dom (g_score s)" by auto
  have eq: "states_of initial - dom (g_score (relax cur nb (g + 1) h s))
        = (states_of initial - dom (g_score s)) - {nb}"
    by auto
  have mem: "nb \<in> states_of initial - dom (g_score s)" using nb nd by simp
  have fin: "finite (states_of initial - dom (g_score s))"
    using finite_states_of by simp
  have "unseen initial (relax cur nb (g + 1) h s) < unseen initial s"
    unfolding unseen_def eq using fin mem by (rule card_Diff1_less)
  then show ?thesis by (simp add: advanced_def)
next
  case (Some g')
  then have ind: "nb \<in> dom (g_score s)" by auto
  then have dom_eq: "dom (g_score (relax cur nb (g + 1) h s)) = dom (g_score s)" by auto
  have fin: "finite (dom (g_score s))" using inv by (rule inv_basic_finite_dom)
  from Some better have lt: "g + 1 < g'" by simp
  from inv cur have g0: "0 \<le> g" by (auto simp: inv_basic_def)
  have old: "g_total s = nat g' + (\<Sum>n \<in> dom (g_score s) - {nb}. nat (the (g_score s n)))"
    unfolding g_total_def using fin ind Some by (simp add: sum.remove)
  have new: "g_total (relax cur nb (g + 1) h s)
             = nat (g + 1) + (\<Sum>n \<in> dom (g_score s) - {nb}. nat (the (g_score s n)))"
    unfolding g_total_def dom_eq using fin ind by (simp add: sum.remove)
  have "nat (g + 1) < nat g'" using lt g0 by simp
  with old new have "g_total (relax cur nb (g + 1) h s) < g_total s" by simp
  moreover have "unseen initial (relax cur nb (g + 1) h s) = unseen initial s"
    unfolding unseen_def dom_eq ..
  ultimately show ?thesis by (simp add: advanced_def)
qed

lemma advanced_trans:
  "advanced initial s s' \<Longrightarrow> advanced initial s' s'' \<Longrightarrow> advanced initial s s''"
  unfolding advanced_def by linarith

lemma visit_basic:
  assumes inv: "inv_basic initial s"
    and cur: "cur \<in> states_of initial" "cur \<in> dom (g_score s)"
    and b: "b < length cur"
  shows "visit goal cur b d s \<noteq> Inl KeyError"
    and "visit goal cur b d s = Inr s' \<Longrightarrow>
           inv_basic initial s' \<and> cur \<in> dom (g_score s') \<and> (s' = s \<or> advanced initial s s')"
proof -
  show "visit goal cur b d s \<noteq> Inl KeyError"
  proof
    assume "visit goal cur b d s = Inl KeyError"
    then show False
    proof (cases rule: visit_cases)
      case (key k)
      with cur show ?thesis by auto
    next
      case (raise k g e)
      then show ?thesis using manhattan_distance_error by blast
    qed simp_all
  qed
  assume "visit goal cur b d s = Inr s'"
  then show "inv_basic initial s' \<and> cur \<in> dom (g_score s') \<and> (s' = s \<or> advanced initial s s')"
  proof (cases rule: visit_cases)
    case (improve k g h)
    let ?nb = "cur[b := cur ! k, k := cur ! b]"
    have nb: "?nb \<in> states_of initial" using cur b improve by (simp add: swap_states_of)
    from improve have s': "s' = relax cur ?nb (g + 1) h s" by simp
    show ?thesis
      unfolding s'
      using inv_basic_relax [OF inv improve(3) nb improve(4)]
        advanced_relax [OF inv improve(3) nb improve(4)] cur
      by auto
  qed (use inv cur in auto)
qed

lemma visit_all_basic:
  assumes "inv_basic initial s" "cur \<in> states_of initial" "cur \<in> dom (g_score s)"
    "b < length cur"
  shows "visit_all goal cur b ds s \<noteq> Inl KeyError \<and>
         (\<forall>s'. visit_all goal cur b ds s = Inr s' \<longrightarrow>
            inv_basic initial s' \<and> (s' = s \<or> advanced initial s s'))"
  using assms
proof (induction ds arbitrary: s)
  case Nil
  then show ?case by simp
next
  case (Cons d ds)
  note v = visit_basic [OF Cons.prems, of goal d]
  show ?case
  proof (cases "visit goal cur b d s")
    case (Inl e)
    with v(1) show ?thesis by auto
  next
    case (Inr s1)
    from v(2) [OF Inr] have a: "inv_basic initial s1" "cur \<in> dom (g_score s1)"
      "s1 = s \<or> advanced initial s s1" by auto
    from Cons.IH [OF a(1) Cons.prems(2) a(2) Cons.prems(4)]
    have ih: "visit_all goal cur b ds s1 \<noteq> Inl KeyError"
      "\<And>s'. visit_all goal cur b ds s1 = Inr s' \<Longrightarrow>
         inv_basic initial s' \<and> (s' = s1 \<or> advanced initial s1 s')"
      by auto
    show ?thesis
      using Inr ih a(3) by (auto intro: advanced_trans)
  qed
qed

lemma expand_basic:
  assumes "inv_basic initial s" "cur \<in> dom (g_score s)"
  shows "expand goal cur s \<noteq> Inl KeyError"
    and "expand goal cur s = Inr s' \<Longrightarrow>
           inv_basic initial s' \<and> (s' = s \<or> advanced initial s s')"
proof -
  from assms have cur: "cur \<in> states_of initial" by (auto simp: inv_basic_def)
  show "expand goal cur s \<noteq> Inl KeyError"
    unfolding expand_def
    using visit_all_basic [OF assms(1) cur assms(2)] list_index_found [of cur BLANK_TILE]
    by (auto split: sum.splits dest: list_index_error)
  assume "expand goal cur s = Inr s'"
  then show "inv_basic initial s' \<and> (s' = s \<or> advanced initial s s')"
    unfolding expand_def
    using visit_all_basic [OF assms(1) cur assms(2)] list_index_found [of cur BLANK_TILE]
    by (auto split: sum.splits)
qed

subsection \<open>The walk along the predecessor links\<close>

lemma reconstruct_links:
  assumes "\<forall>n p. cf n = Some p \<longrightarrow> (\<exists>v w. g n = Some v \<and> g p = Some w \<and> w < v)"
    and "\<forall>n v. g n = Some v \<longrightarrow> (0::int) \<le> v"
  shows "\<exists>ch. reconstruct cf cur acc = Some (rev (acc @ ch)) \<and> links cf cur ch"
proof (induction "nat (the (g cur))" arbitrary: cur acc rule: less_induct)
  case less
  show ?case
  proof (cases "cf cur")
    case None
    then have "reconstruct cf cur acc = Some (rev (acc @ []))" "links cf cur []"
      by (simp_all add: reconstruct.simps [of cf cur])
    then show ?thesis by blast
  next
    case (Some p)
    with assms obtain v w where vw: "g cur = Some v" "g p = Some w" "w < v" "0 \<le> w"
      by blast
    then have "nat (the (g p)) < nat (the (g cur))" by simp
    from less [OF this, of "acc @ [cur]"] obtain ch
      where ch: "reconstruct cf p (acc @ [cur]) = Some (rev ((acc @ [cur]) @ ch))" "links cf p ch"
      by blast
    from Some ch have "reconstruct cf cur acc = Some (rev (acc @ cur # ch))" "links cf cur (cur # ch)"
      by (simp_all add: reconstruct.simps [of cf cur])
    then show ?thesis by blast
  qed
qed

subsection \<open>The main loop\<close>

lemma pop_basic:
  "inv_basic initial s \<Longrightarrow> inv_basic initial (s\<lparr>open_set := snd (pq_get (open_set s))\<rparr>)"
  using pq_get_rest_subset [of "open_set s"] by (auto simp: inv_basic_def)

lemma a_star_loop_rule:
  assumes start: "I s"
    and basic: "\<And>s. I s \<Longrightarrow> inv_basic initial s"
    and step: "\<And>s s2. I s \<Longrightarrow> open_set s \<noteq> [] \<Longrightarrow> snd (fst (pq_get (open_set s))) \<noteq> goal \<Longrightarrow>
       expand goal (snd (fst (pq_get (open_set s)))) (s\<lparr>open_set := snd (pq_get (open_set s))\<rparr>)
         = Inr s2 \<Longrightarrow> I s2"
    and empty: "\<And>s. I s \<Longrightarrow> open_set s = [] \<Longrightarrow> Q (Inr [])"
    and found: "\<And>s ch. I s \<Longrightarrow> open_set s \<noteq> [] \<Longrightarrow> snd (fst (pq_get (open_set s))) = goal \<Longrightarrow>
       links (came_from s) goal ch \<Longrightarrow> Q (Inr (rev ch))"
    and failed: "\<And>s e. I s \<Longrightarrow> open_set s \<noteq> [] \<Longrightarrow> snd (fst (pq_get (open_set s))) \<noteq> goal \<Longrightarrow>
       expand goal (snd (fst (pq_get (open_set s)))) (s\<lparr>open_set := snd (pq_get (open_set s))\<rparr>)
         = Inl e \<Longrightarrow> Q (Inl e)"
  shows "\<exists>r. a_star_loop goal s = Some r \<and> Q r"
  using start
proof (induction s rule: wf_induct_rule [OF wf_measures
        [of "[unseen initial, g_total, \<lambda>s. length (open_set s)]"]])
  case (1 s)
  note inv = basic [OF "1.prems"]
  show ?case
  proof (cases "open_set s = []")
    case True
    then have "a_star_loop goal s = Some (Inr [])" by (simp add: a_star_loop.simps [of goal s])
    with empty [OF "1.prems" True] show ?thesis by simp
  next
    case False
    let ?cur = "snd (fst (pq_get (open_set s)))"
    let ?s1 = "s\<lparr>open_set := snd (pq_get (open_set s))\<rparr>"
    show ?thesis
    proof (cases "?cur = goal")
      case True
      from inv obtain ch where ch: "reconstruct (came_from s) goal [] = Some (rev ([] @ ch))"
        "links (came_from s) goal ch"
        using reconstruct_links [of "came_from s" "g_score s" goal "[]"]
        unfolding inv_basic_def by blast
      with False True have "a_star_loop goal s = Some (Inr (rev ch))"
        by (simp add: a_star_loop.simps [of goal s] Let_def)
      with found [OF "1.prems" False True ch(2)] show ?thesis by simp
    next
      case ne: False
      show ?thesis
      proof (cases "expand goal ?cur ?s1")
        case (Inl e)
        with False ne have "a_star_loop goal s = Some (Inl e)"
          by (simp add: a_star_loop.simps [of goal s] Let_def)
        with failed [OF "1.prems" False ne Inl] show ?thesis by simp
      next
        case (Inr s2)
        with False ne have unfold: "a_star_loop goal s = a_star_loop goal s2"
          by (simp add: a_star_loop.simps [of goal s] Let_def)
        have cur: "?cur \<in> dom (g_score ?s1)"
          using inv pq_get_mem [OF False] by (auto simp: inv_basic_def)
        from expand_basic(2) [OF pop_basic [OF inv] cur Inr]
        have "s2 = ?s1 \<or> advanced initial ?s1 s2" by simp
        moreover have "unseen initial ?s1 = unseen initial s" "g_total ?s1 = g_total s"
          by (simp_all add: unseen_def g_total_def)
        moreover have "length (open_set ?s1) < length (open_set s)"
          using pq_get_rest_length [OF False] by simp
        ultimately have "(s2, s) \<in> measures [unseen initial, g_total, \<lambda>s. length (open_set s)]"
          by (auto simp: advanced_def)
        from "1.IH" [OF this step [OF "1.prems" False ne Inr]] unfold show ?thesis by simp
      qed
    qed
  qed
qed

subsection \<open>Every call terminates\<close>

lemma a_star_solver_unfold:
  "a_star_solver initial goal =
     (case manhattan_distance initial goal of
        Inl e \<Rightarrow> Some (Inl e)
      | Inr h \<Rightarrow> a_star_loop goal (init_search initial h))"
  unfolding a_star_solver_def init_search_def ..

lemma inv_basic_init: "inv_basic initial (init_search initial h)"
  by (simp add: inv_basic_def init_search_def pq_put_def states_of_def)

lemma a_star_solver_returns_or_raises:
  "\<exists>r. a_star_solver initial goal = Some r \<and> r \<noteq> Inl KeyError"
proof (cases "manhattan_distance initial goal")
  case (Inl e)
  then show ?thesis
    using manhattan_distance_error [OF Inl] by (simp add: a_star_solver_unfold)
next
  case (Inr h)
  have "\<exists>r. a_star_loop goal (init_search initial h) = Some r \<and> r \<noteq> Inl KeyError"
  proof (rule a_star_loop_rule [where I = "inv_basic initial" and initial = initial])
    show "inv_basic initial (init_search initial h)" by (rule inv_basic_init)
  next
    fix s s2
    assume s: "inv_basic initial s" "open_set s \<noteq> []"
      and e: "expand goal (snd (fst (pq_get (open_set s)))) (s\<lparr>open_set := snd (pq_get (open_set s))\<rparr>) = Inr s2"
    have cur: "snd (fst (pq_get (open_set s))) \<in> dom (g_score (s\<lparr>open_set := snd (pq_get (open_set s))\<rparr>))"
      using s pq_get_mem [OF s(2)] by (auto simp: inv_basic_def)
    from expand_basic(2) [OF pop_basic [OF s(1)] cur e] show "inv_basic initial s2" by simp
  next
    fix s e
    assume s: "inv_basic initial s" "open_set s \<noteq> []"
      and e: "expand goal (snd (fst (pq_get (open_set s)))) (s\<lparr>open_set := snd (pq_get (open_set s))\<rparr>) = Inl e"
    have cur: "snd (fst (pq_get (open_set s))) \<in> dom (g_score (s\<lparr>open_set := snd (pq_get (open_set s))\<rparr>))"
      using s pq_get_mem [OF s(2)] by (auto simp: inv_basic_def)
    from expand_basic(1) [OF pop_basic [OF s(1)] cur, of goal] e
    show "Inl e \<noteq> (Inl KeyError :: py_error + int list list)" by auto
  qed simp_all
  with Inr show ?thesis by (simp add: a_star_solver_unfold)
qed

lemma manhattan_distance_missing:
  assumes "t \<in> set state" "t \<noteq> BLANK_TILE" "t \<notin> set goal"
  shows "manhattan_distance state goal = Inl ValueError"
proof -
  from assms(1) obtain i where i: "i < length state" "state ! i = t"
    by (auto simp: in_set_conv_nth)
  have "Inl ValueError \<in> set [tile_distance goal i tile. (i, tile) \<leftarrow> enumerate 0 state,
                                             tile \<noteq> BLANK_TILE]"
    using i assms(2,3) list_index_Inl [of t goal]
    by (auto simp: in_set_enumerate_eq tile_distance_def intro!: bexI [of _ "(i, t)"])
  moreover have "Inl e \<in> set rs \<Longrightarrow> \<exists>e'. sum_results rs = Inl e'" for e rs
    by (induction rs) (auto split: sum.splits)
  ultimately obtain e' where "manhattan_distance state goal = Inl e'"
    unfolding manhattan_distance_def by blast
  then show ?thesis using manhattan_distance_error by blast
qed

text \<open>
  Claim C3, as stated, fails: the solver validates nothing. A start with a duplicate
  identifier (and so a missing one) is not a valid configuration, and the call on it
  returns a sequence instead of raising.
\<close>

theorem malformed_not_rejected_counterexample:
  "\<not> valid_config [1, 1, 3, 4, 5, 6, 7, BLANK_TILE, 8]
   \<and> \<not> raised (a_star_solver [1, 1, 3, 4, 5, 6, 7, BLANK_TILE, 8]
                              [1, 1, 3, 4, 5, 6, 7, 8, BLANK_TILE])"
  by code_simp

text \<open>
  Claim C3, amended. On every input, malformed or not, the call terminates: it returns
  a sequence or raises an exception of Python's own, ValueError or IndexError, never
  KeyError (the program has no error kind InvalidConfiguration). When the start holds a
  non-blank tile that the goal lacks, it raises ValueError before the search begins.
\<close>

theorem a_star_solver_any_input:
  "(\<exists>r. a_star_solver initial goal = Some r \<and> r \<noteq> Inl KeyError)
   \<and> ((\<exists>t \<in> set initial. t \<noteq> BLANK_TILE \<and> t \<notin> set goal) \<longrightarrow>
        a_star_solver initial goal = Some (Inl ValueError))"
  using a_star_solver_returns_or_raises [of initial goal]
  by (auto simp: a_star_solver_unfold dest: manhattan_distance_missing)

theorem a_star_solver_any_input_witness:
  "(\<exists>t \<in> set [1, 2, 3, 4, 5, 6, 7, 9, BLANK_TILE]. t \<noteq> BLANK_TILE \<and> t \<notin> set [1, 2, 3, 4, 5, 6, 7, 8, BLANK_TILE])
   \<and> a_star_solver [1, 2, 3, 4, 5, 6, 7, 9, BLANK_TILE] [1, 2, 3, 4, 5, 6, 7, 8, BLANK_TILE]
       = Some (Inl ValueError)"
proof -
  have h: "\<exists>t \<in> set [1, 2, 3, 4, 5, 6, 7, 9, BLANK_TILE]. t \<noteq> BLANK_TILE \<and> t \<notin> set [1, 2, 3, 4, 5, 6, 7, 8, BLANK_TILE]"
    by (simp add: BLANK_TILE_def)
  show ?thesis
    using h a_star_solver_any_input [of "[1, 2, 3, 4, 5, 6, 7, 9, BLANK_TILE]" "[1, 2, 3, 4, 5, 6, 7, 8, BLANK_TILE]"]
    by blast
qed

subsection \<open>Valid configurations and legal moves\<close>

lemma all_tiles_distinct: "distinct all_tiles"
  by (simp add: all_tiles_def BLANK_TILE_def)

lemma all_tiles_length: "length all_tiles = 9"
  by (simp add: all_tiles_def GRID_SIZE_def)

lemma valid_length: "valid_config c \<Longrightarrow> length c = 9"
proof -
  assume v: "valid_config c"
  then have "distinct c" by (simp add: valid_config_def)
  then have "length c = card (set c)" by (simp only: distinct_card)
  also have "\<dots> = card (set all_tiles)"
    using v by (simp add: valid_config_def)
  also have "\<dots> = length all_tiles"
    using all_tiles_distinct by (rule distinct_card)
  finally show ?thesis by (simp add: all_tiles_length)
qed

lemma valid_same_set: "valid_config c \<Longrightarrow> valid_config c' \<Longrightarrow> set c = set c'"
  by (simp add: valid_config_def)

lemma valid_blank: "valid_config c \<Longrightarrow> BLANK_TILE \<in> set c"
  by (simp add: valid_config_def all_tiles_def)

lemma valid_states_of: "valid_config initial \<Longrightarrow> n \<in> states_of initial \<Longrightarrow> valid_config n"
proof -
  assume v: "valid_config initial" and n: "n \<in> states_of initial"
  then have "distinct initial" "set n = set initial" "length n = length initial"
    by (simp_all add: states_of_def valid_config_def)
  then have "card (set n) = length n"
    using distinct_card [of initial] by simp
  then have "distinct n" by (rule card_distinct)
  with v n show ?thesis by (simp add: states_of_def valid_config_def)
qed

lemma states_of_valid: "valid_config initial \<Longrightarrow> valid_config n \<Longrightarrow> n \<in> states_of initial"
  using valid_same_set [of n initial] by (simp add: states_of_def valid_length)

lemma valid_blank_index:
  assumes "valid_config c"
  obtains b where "list_index c BLANK_TILE = Inr b" "b < 9" "c ! b = BLANK_TILE"
    "\<And>j. j < 9 \<Longrightarrow> c ! j = BLANK_TILE \<Longrightarrow> j = b"
proof -
  from list_index_Inr [OF valid_blank [OF assms]] obtain b
    where b: "list_index c BLANK_TILE = Inr b" "b < length c" "c ! b = BLANK_TILE" by blast
  have d: "distinct c" using assms by (simp add: valid_config_def)
  have uniq: "j = b" if "j < 9" "c ! j = BLANK_TILE" for j
    using that b d valid_length [OF assms] nth_eq_iff_index_eq [of c j b] by simp
  have lt: "b < 9" using b valid_length [OF assms] by simp
  show ?thesis by (rule that [OF b(1) lt b(3) uniq])
qed

lemma less_9_cases:
  "b < 9 \<Longrightarrow> b = 0 \<or> b = 1 \<or> b = 2 \<or> b = 3 \<or> b = 4 \<or> b = 5 \<or> b = 6 \<or> b = 7 \<or> b = (8::nat)"
  by arith

lemma target_up: "b < 9 \<Longrightarrow> target b (- 1, 0) = (if 3 \<le> b then Some (b - 3) else None)"
  by (drule less_9_cases) (elim disjE; simp add: target_def GRID_SIZE_def)

lemma target_down: "b < 9 \<Longrightarrow> target b (1, 0) = (if b < 6 then Some (b + 3) else None)"
  by (drule less_9_cases) (elim disjE; simp add: target_def GRID_SIZE_def)

lemma target_left: "b < 9 \<Longrightarrow> target b (0, - 1) = (if b mod 3 \<noteq> 0 then Some (b - 1) else None)"
  by (drule less_9_cases) (elim disjE; simp add: target_def GRID_SIZE_def)

lemma target_right: "b < 9 \<Longrightarrow> target b (0, 1) = (if b mod 3 \<noteq> 2 then Some (b + 1) else None)"
  by (drule less_9_cases) (elim disjE; simp add: target_def GRID_SIZE_def)

lemma adjacent_iff:
  "b < 9 \<Longrightarrow> k < 9 \<Longrightarrow>
   adjacent b k = (k + 3 = b \<or> k = b + 3 \<or> (b mod 3 \<noteq> 0 \<and> k + 1 = b) \<or> (b mod 3 \<noteq> 2 \<and> k = b + 1))"
  by (drule less_9_cases, drule less_9_cases)
     (elim disjE; simp add: adjacent_def GRID_SIZE_def)

lemma last_cell: "b < 9 \<Longrightarrow> b mod 3 \<noteq> 2 \<Longrightarrow> b < (8::nat)"
  by (drule less_9_cases) (elim disjE; simp)

lemma target_adjacent:
  assumes "b < 9" "target b d = Some k" "d \<in> set directions"
  shows "k < 9 \<and> adjacent b k"
proof -
  from assms have k: "k < 9 \<and> (k + 3 = b \<or> k = b + 3 \<or> (b mod 3 \<noteq> 0 \<and> k + 1 = b) \<or> (b mod 3 \<noteq> 2 \<and> k = b + 1))"
    by (auto simp: directions_def target_up target_down target_left target_right
        last_cell split: if_splits)
  then show ?thesis using adjacent_iff [OF assms(1), of k] by simp
qed

lemma adjacent_target:
  assumes "b < 9" "k < 9" "adjacent b k"
  shows "\<exists>d \<in> set directions. target b d = Some k"
proof -
  from assms have "k + 3 = b \<or> k = b + 3 \<or> (b mod 3 \<noteq> 0 \<and> k + 1 = b) \<or> (b mod 3 \<noteq> 2 \<and> k = b + 1)"
    by (simp add: adjacent_iff)
  then show ?thesis
    using assms(1,2)
    by (auto simp: directions_def target_up target_down target_left target_right)
qed

lemma adjacent_distinct: "adjacent b k \<Longrightarrow> b \<noteq> k"
  by (auto simp: adjacent_def)

subsection \<open>Legal moves and the directions of the expansion\<close>

lemma legal_move_iff:
  "legal_move c c' \<longleftrightarrow>
     (\<exists>b k. b < length c \<and> k < length c \<and> c ! b = BLANK_TILE \<and> adjacent b k \<and>
        b div GRID_SIZE < GRID_SIZE \<and> k div GRID_SIZE < GRID_SIZE \<and>
        c' = c[b := c ! k, k := c ! b])"
  unfolding legal_move_def by (simp add: Bex_def) blast

lemma legal_move_valid:
  assumes "valid_config c" "legal_move c c'"
  shows "valid_config c'"
proof -
  from assms(2) obtain b k where "b < length c" "k < length c" "c' = c[b := c ! k, k := c ! b]"
    by (auto simp: legal_move_iff)
  with assms(1) show ?thesis by (simp add: valid_config_def)
qed

lemma target_legal_move:
  assumes "valid_config c" "list_index c BLANK_TILE = Inr b" "d \<in> set directions"
    "target b d = Some k"
  shows "k < 9" "legal_move c (c[b := c ! k, k := c ! b])"
proof -
  from list_index_found [OF assms(2)] valid_length [OF assms(1)]
  have b: "b < 9" "c ! b = BLANK_TILE" by simp_all
  from target_adjacent [OF b(1) assms(4,3)] have k: "k < 9" "adjacent b k" by simp_all
  show "k < 9" by fact
  have "b div GRID_SIZE < GRID_SIZE" "k div GRID_SIZE < GRID_SIZE"
    using b(1) k(1) by (simp_all add: GRID_SIZE_def less_mult_imp_div_less)
  with b k valid_length [OF assms(1)] show "legal_move c (c[b := c ! k, k := c ! b])"
    unfolding legal_move_iff by (intro exI [of _ b] exI [of _ k]) simp
qed

lemma legal_move_target:
  assumes "valid_config c" "list_index c BLANK_TILE = Inr b" "legal_move c c'"
  shows "\<exists>d \<in> set directions. \<exists>k. target b d = Some k \<and> c' = c[b := c ! k, k := c ! b]"
proof -
  from assms(3) valid_length [OF assms(1)] obtain b' k
    where m: "b' < 9" "k < 9" "c ! b' = BLANK_TILE" "adjacent b' k"
      "c' = c[b' := c ! k, k := c ! b']"
    by (auto simp: legal_move_iff)
  from list_index_found [OF assms(2)] valid_length [OF assms(1)]
  have b: "b < 9" "c ! b = BLANK_TILE" by simp_all
  have "distinct c" using assms(1) by (simp add: valid_config_def)
  with m(1,3) b valid_length [OF assms(1)] have "b' = b"
    using nth_eq_iff_index_eq [of c b' b] by simp
  with m adjacent_target [OF b(1) m(2)] show ?thesis by auto
qed

subsection \<open>The heuristic as a sum\<close>

lemma list_index_position: "v \<in> set xs \<Longrightarrow> list_index xs v = Inr (position xs v)"
  by (induction xs) (auto simp: position_def)

lemma position_nth: "distinct xs \<Longrightarrow> j < length xs \<Longrightarrow> position xs (xs ! j) = j"
proof (induction xs arbitrary: j)
  case Nil
  then show ?case by simp
next
  case (Cons x xs)
  then show ?case by (cases j) (auto simp: position_def)
qed

lemma nth_position: "v \<in> set xs \<Longrightarrow> position xs v < length xs \<and> xs ! position xs v = v"
  using list_index_found [of xs v "position xs v"] list_index_position [of v xs] by simp

lemma tile_distance_position:
  "t \<in> set goal \<Longrightarrow> tile_distance goal i t = Inr (grid_distance (position goal t) i)"
  by (simp add: tile_distance_def list_index_position grid_distance_def)

lemma sum_results_enumerate:
  assumes "\<forall>t \<in> set st. t \<noteq> BLANK_TILE \<longrightarrow> t \<in> set goal"
  shows "sum_results [tile_distance goal i tile. (i, tile) \<leftarrow> enumerate n st, tile \<noteq> BLANK_TILE]
         = Inr (\<Sum>j \<leftarrow> [0 ..< length st].
                  if st ! j \<noteq> BLANK_TILE then grid_distance (position goal (st ! j)) (n + j) else 0)"
  using assms
proof (induction st arbitrary: n)
  case Nil
  then show ?case by simp
next
  case (Cons x xs)
  have up: "[0 ..< length (x # xs)] = 0 # map Suc [0 ..< length xs]"
    by (simp add: upt_conv_Cons map_Suc_upt del: upt_Suc)
  from Cons.prems have ih: "\<forall>t \<in> set xs. t \<noteq> BLANK_TILE \<longrightarrow> t \<in> set goal" by simp
  show ?case
    unfolding up using Cons.IH [OF ih, of "Suc n"] Cons.prems
    by (simp add: tile_distance_position comp_def del: upt_Suc cong: if_cong)
qed

lemma manhattan_distance_cell_sum:
  assumes "\<forall>t \<in> set st. t \<noteq> BLANK_TILE \<longrightarrow> t \<in> set goal"
  shows "manhattan_distance st goal = Inr (cell_sum goal st)"
  unfolding manhattan_distance_def cell_sum_def
  using sum_results_enumerate [OF assms, of 0]
  by (simp add: interv_sum_list_conv_sum_set_nat cong: if_cong)

lemma manhattan_distance_valid:
  "valid_config c \<Longrightarrow> valid_config goal \<Longrightarrow> manhattan_distance c goal = Inr (cell_sum goal c)"
  using valid_same_set [of c goal] by (intro manhattan_distance_cell_sum) simp

lemma heuristic_valid:
  "valid_config c \<Longrightarrow> valid_config goal \<Longrightarrow> heuristic goal c = cell_sum goal c"
  by (simp add: heuristic_def manhattan_distance_valid)

lemma grid_distance_nonneg: "0 \<le> grid_distance a b"
  by (simp add: grid_distance_def)

lemma cell_sum_nonneg: "0 \<le> cell_sum goal c"
  unfolding cell_sum_def by (intro sum_nonneg) (simp add: grid_distance_nonneg)

lemma cell_sum_goal: "distinct goal \<Longrightarrow> cell_sum goal goal = 0"
  unfolding cell_sum_def by (intro sum.neutral) (simp add: position_nth grid_distance_def)

subsection \<open>A move changes the heuristic by at most one\<close>

lemma grid_distance_adjacent: "adjacent b k \<Longrightarrow> grid_distance p b \<le> grid_distance p k + 1"
  unfolding adjacent_def grid_distance_def by (elim disjE conjE) simp_all

lemma adjacent_sym: "adjacent b k \<Longrightarrow> adjacent k b"
  unfolding adjacent_def by auto

lemma cell_sum_move:
  assumes d: "distinct c" and b: "b < length c" and k: "k < length c"
    and blank: "c ! b = BLANK_TILE" and ne: "b \<noteq> k"
  shows "cell_sum goal (c[b := c ! k, k := c ! b])
         = cell_sum goal c - grid_distance (position goal (c ! k)) k
                           + grid_distance (position goal (c ! k)) b"
proof -
  let ?c' = "c[b := c ! k, k := c ! b]"
  let ?F = "\<lambda>c j. if c ! j \<noteq> BLANK_TILE then grid_distance (position goal (c ! j)) j else 0"
  let ?R = "{0 ..< length c} - {b} - {k}"
  have tile: "c ! k \<noteq> BLANK_TILE"
    using d b k blank ne nth_eq_iff_index_eq [of c k b] by auto
  have split: "(\<Sum>j \<in> {0 ..< length c}. f j) = f b + (f k + sum f ?R)" for f :: "nat \<Rightarrow> int"
  proof -
    have "(\<Sum>j \<in> {0 ..< length c}. f j) = f b + sum f ({0 ..< length c} - {b})"
      using b by (intro sum.remove) simp_all
    also have "sum f ({0 ..< length c} - {b}) = f k + sum f ?R"
      using k ne by (intro sum.remove) simp_all
    finally show ?thesis .
  qed
  have rest: "sum (?F ?c') ?R = sum (?F c) ?R"
    by (intro sum.cong) auto
  have "cell_sum goal ?c' = ?F ?c' b + (?F ?c' k + sum (?F ?c') ?R)"
    unfolding cell_sum_def using split [of "?F ?c'"] by simp
  also have "?F ?c' b = grid_distance (position goal (c ! k)) b"
    using b k ne tile by simp
  also have "?F ?c' k = 0"
    using b k ne blank by simp
  finally have new: "cell_sum goal ?c' = grid_distance (position goal (c ! k)) b + sum (?F c) ?R"
    using rest by simp
  have "cell_sum goal c = ?F c b + (?F c k + sum (?F c) ?R)"
    unfolding cell_sum_def using split [of "?F c"] by simp
  also have "?F c b = 0" using blank by simp
  also have "?F c k = grid_distance (position goal (c ! k)) k" using tile by simp
  finally have old: "cell_sum goal c = grid_distance (position goal (c ! k)) k + sum (?F c) ?R"
    by simp
  from new old show ?thesis by simp
qed

lemma heuristic_step:
  assumes "valid_config c" "valid_config goal" "legal_move c c'"
  shows "heuristic goal c \<le> heuristic goal c' + 1"
proof -
  from assms(3) obtain b k where m: "b < length c" "k < length c" "c ! b = BLANK_TILE"
    "adjacent b k" "c' = c[b := c ! k, k := c ! b]"
    by (auto simp: legal_move_iff)
  have d: "distinct c" using assms(1) by (simp add: valid_config_def)
  from cell_sum_move [OF d m(1,2,3) adjacent_distinct [OF m(4)], of goal]
    grid_distance_adjacent [OF adjacent_sym [OF m(4)], of "position goal (c ! k)"]
  have "cell_sum goal c \<le> cell_sum goal c' + 1" unfolding m(5) by simp
  then show ?thesis
    using assms legal_move_valid [OF assms(1,3)] by (simp add: heuristic_valid)
qed

lemma heuristic_goal: "valid_config goal \<Longrightarrow> heuristic goal goal = 0"
  by (simp add: heuristic_valid cell_sum_goal valid_config_def)

lemma heuristic_nonneg: "valid_config c \<Longrightarrow> valid_config goal \<Longrightarrow> 0 \<le> heuristic goal c"
  by (simp add: heuristic_valid cell_sum_nonneg)

lemma relpow_valid: "(legal_move ^^ n) c c' \<Longrightarrow> valid_config c \<Longrightarrow> valid_config c'"
  by (induction n arbitrary: c') (auto intro: legal_move_valid)

lemma heuristic_admissible:
  assumes "valid_config goal"
  shows "(legal_move ^^ n) c goal \<Longrightarrow> valid_config c \<Longrightarrow> heuristic goal c \<le> int n"
proof (induction n arbitrary: c)
  case 0
  then show ?case using heuristic_goal [OF assms] by simp
next
  case (Suc n)
  from Suc.prems(1) obtain c' where c': "legal_move c c'" "(legal_move ^^ n) c' goal"
    using relpowp_Suc_D2 [where P = legal_move and n = n and x = c and z = goal] by blast
  from Suc.IH [OF c'(2) legal_move_valid [OF Suc.prems(2) c'(1)]]
    heuristic_step [OF Suc.prems(2) assms c'(1)]
  show ?case by simp
qed

subsection \<open>The search invariant on valid configurations\<close>

lemma relax_links:
  assumes links: "inv_links initial s" and basic: "inv_basic initial s"
    and cur: "g_score s cur = Some g" and move: "legal_move cur nb"
    and better: "\<forall>g'. g_score s nb = Some g' \<longrightarrow> g + 1 < g'"
  shows "inv_links initial (relax cur nb (g + 1) h s)"
proof -
  from basic cur have g0: "0 \<le> g" by (auto simp: inv_basic_def)
  from links have i0: "g_score s initial = Some 0" by (simp add: inv_links_def)
  with better g0 have ne: "nb \<noteq> initial" by auto
  have "dom (g_score (relax cur nb (g + 1) h s)) = insert nb (dom (g_score s))" by auto
  also have "\<dots> = insert initial (dom (came_from (relax cur nb (g + 1) h s)))"
    using links by (auto simp: inv_links_def)
  finally have d: "dom (g_score (relax cur nb (g + 1) h s))
                   = insert initial (dom (came_from (relax cur nb (g + 1) h s)))" .
  have l: "legal_move p n" if "came_from (relax cur nb (g + 1) h s) n = Some p" for n p
    using that links move by (cases "n = nb") (auto simp: inv_links_def)
  from links ne d l show ?thesis unfolding inv_links_def by simp
qed

lemma relax_queue:
  assumes q: "inv_queue initial goal s"
    and better: "\<forall>g'. g_score s nb = Some g' \<longrightarrow> g + 1 < g'"
  shows "inv_queue initial goal (relax cur nb (g + 1) (heuristic goal nb) s)"
proof -
  let ?s' = "relax cur nb (g + 1) (heuristic goal nb) s"
  have a: "snd e = initial \<or>
           (\<exists>v. g_score ?s' (snd e) = Some v \<and> v + heuristic goal (snd e) \<le> fst e)"
    if e: "e \<in> set (open_set ?s')" for e
  proof (cases "e \<in> set (open_set s)")
    case True
    with q consider "snd e = initial"
      | v where "g_score s (snd e) = Some v" "v + heuristic goal (snd e) \<le> fst e"
      unfolding inv_queue_def by blast
    then show ?thesis
    proof cases
      case 1
      then show ?thesis by simp
    next
      case 2
      show ?thesis
      proof (cases "snd e = nb")
        case True
        with 2 better have "g + 1 < v" by simp
        with 2 True show ?thesis by simp
      next
        case False
        with 2 show ?thesis by simp
      qed
    qed
  next
    case False
    with e have "e = (g + 1 + heuristic goal nb, nb)" by simp
    then show ?thesis by simp
  qed
  have b: "goal \<in> snd ` set (open_set ?s')" if "goal \<in> dom (g_score ?s')"
  proof (cases "goal = nb")
    case True
    then show ?thesis by (simp add: image_iff)
  next
    case False
    with that have "goal \<in> dom (g_score s)" by auto
    with q have "goal \<in> snd ` set (open_set s)" by (simp add: inv_queue_def)
    then show ?thesis by auto
  qed
  from a b show ?thesis unfolding inv_queue_def by blast
qed

lemma relax_settled:
  assumes st: "settled goal s n"
    and better: "\<forall>g'. g_score s nb = Some g' \<longrightarrow> g + 1 < g'"
  shows "settled goal (relax cur nb (g + 1) (heuristic goal nb) s) n"
proof (cases "n = nb")
  case True
  then show ?thesis unfolding settled_def by (auto intro!: bexI [of _ "(g + 1 + heuristic goal nb, nb)"])
next
  case False
  show ?thesis
    unfolding settled_def
  proof (intro allI impI)
    fix v
    assume "g_score (relax cur nb (g + 1) (heuristic goal nb) s) n = Some v"
    with False have v: "g_score s n = Some v" by simp
    with st consider
      (queued) e where "e \<in> set (open_set s)" "snd e = n" "fst e \<le> v + heuristic goal n"
      | (closed) "\<forall>m. legal_move n m \<longrightarrow> (\<exists>w. g_score s m = Some w \<and> w \<le> v + 1)"
      unfolding settled_def by blast
    then show "(\<exists>e \<in> set (open_set (relax cur nb (g + 1) (heuristic goal nb) s)).
                  snd e = n \<and> fst e \<le> v + heuristic goal n) \<or>
               (\<forall>m. legal_move n m \<longrightarrow>
                  (\<exists>w. g_score (relax cur nb (g + 1) (heuristic goal nb) s) m = Some w \<and> w \<le> v + 1))"
    proof cases
      case queued
      then show ?thesis by auto
    next
      case closed
      have "\<exists>w. g_score (relax cur nb (g + 1) (heuristic goal nb) s) m = Some w \<and> w \<le> v + 1"
        if "legal_move n m" for m
      proof -
        from closed that obtain w where w: "g_score s m = Some w" "w \<le> v + 1" by blast
        show ?thesis
        proof (cases "m = nb")
          case True
          with w better have "g + 1 < w" by simp
          with w True show ?thesis by simp
        next
          case False
          with w show ?thesis by simp
        qed
      qed
      then show ?thesis by blast
    qed
  qed
qed

lemma relax_mono:
  "\<forall>g'. g_score s nb = Some g' \<longrightarrow> g + 1 < g' \<Longrightarrow> g_mono s (relax cur nb (g + 1) h s)"
  unfolding g_mono_def by auto

lemma g_mono_refl: "g_mono s s"
  unfolding g_mono_def by simp

lemma g_mono_trans: "g_mono s s' \<Longrightarrow> g_mono s' s'' \<Longrightarrow> g_mono s s''"
  unfolding g_mono_def by (meson order_trans)

lemma visit_valid:
  assumes vi: "valid_config initial" and vg: "valid_config goal" and vc: "valid_config cur"
    and bi: "list_index cur BLANK_TILE = Inr b" and d: "d \<in> set directions"
    and ex: "expanding initial goal cur s" and gc: "g_score s cur = Some g0"
  shows "\<exists>s'. visit goal cur b d s = Inr s' \<and> expanding initial goal cur s' \<and>
           g_score s' cur = Some g0 \<and> g_mono s s' \<and>
           (\<forall>k. target b d = Some k \<longrightarrow>
              (\<exists>w. g_score s' (cur[b := cur ! k, k := cur ! b]) = Some w \<and> w \<le> g0 + 1))"
proof -
  have len: "length cur = 9" using vc by (rule valid_length)
  have blt: "b < 9" using list_index_found [OF bi] len by simp
  obtain r where r: "visit goal cur b d s = r" by simp
  then show ?thesis
  proof (cases rule: visit_cases)
    case off
    with r ex gc show ?thesis by (simp add: g_mono_refl)
  next
    case (index k)
    with target_legal_move(1) [OF vc bi d] len show ?thesis by simp
  next
    case (key k)
    with gc show ?thesis by simp
  next
    case (keep k g g')
    with r ex gc show ?thesis by (auto simp: g_mono_refl)
  next
    case (raise k g e)
    have "valid_config (cur[b := cur ! k, k := cur ! b])"
      using legal_move_valid [OF vc target_legal_move(2) [OF vc bi d raise(1)]] .
    from manhattan_distance_valid [OF this vg] raise(5) show ?thesis by simp
  next
    case (improve k g h)
    let ?nb = "cur[b := cur ! k, k := cur ! b]"
    have move: "legal_move cur ?nb" using target_legal_move(2) [OF vc bi d improve(1)] .
    have vnb: "valid_config ?nb" using legal_move_valid [OF vc move] .
    have h: "h = heuristic goal ?nb"
      using improve(5) by (simp add: heuristic_def)
    have nb: "?nb \<in> states_of initial" using states_of_valid [OF vi vnb] .
    from ex have basic: "inv_basic initial s" and links: "inv_links initial s"
      and queue: "inv_queue initial goal s" and st: "\<And>n. n \<noteq> cur \<Longrightarrow> settled goal s n"
      by (simp_all add: expanding_def)
    from improve(3) gc have g: "g = g0" by simp
    from improve(3,4) have ne: "cur \<noteq> ?nb" by auto
    let ?s' = "relax cur ?nb (g + 1) h s"
    have "expanding initial goal cur ?s'"
      unfolding expanding_def
      using inv_basic_relax [OF basic improve(3) nb improve(4)]
        relax_links [OF links basic improve(3) move improve(4)]
        relax_queue [OF queue improve(4)]
        relax_settled [OF st improve(4)]
      by (simp add: h)
    moreover have "g_score ?s' cur = Some g0" using ne gc by simp
    moreover have "g_mono s ?s'" using improve(4) by (rule relax_mono)
    moreover have "\<forall>k'. target b d = Some k' \<longrightarrow>
              (\<exists>w. g_score ?s' (cur[b := cur ! k', k' := cur ! b]) = Some w \<and> w \<le> g0 + 1)"
      using improve(1) g by simp
    ultimately show ?thesis using r improve(6) by simp
  qed
qed

lemma visit_all_valid:
  assumes vi: "valid_config initial" and vg: "valid_config goal" and vc: "valid_config cur"
    and bi: "list_index cur BLANK_TILE = Inr b"
  shows "set ds \<subseteq> set directions \<Longrightarrow> expanding initial goal cur s \<Longrightarrow>
         g_score s cur = Some g0 \<Longrightarrow>
         \<exists>s'. visit_all goal cur b ds s = Inr s' \<and> expanding initial goal cur s' \<and>
           g_score s' cur = Some g0 \<and> g_mono s s' \<and>
           (\<forall>d \<in> set ds. \<forall>k. target b d = Some k \<longrightarrow>
              (\<exists>w. g_score s' (cur[b := cur ! k, k := cur ! b]) = Some w \<and> w \<le> g0 + 1))"
proof (induction ds arbitrary: s)
  case Nil
  then show ?case by (simp add: g_mono_refl)
next
  case (Cons d ds)
  from Cons.prems(1) have d: "d \<in> set directions" and ds: "set ds \<subseteq> set directions" by simp_all
  from visit_valid [OF vi vg vc bi d Cons.prems(2,3)] obtain s1
    where s1: "visit goal cur b d s = Inr s1" "expanding initial goal cur s1"
      "g_score s1 cur = Some g0" "g_mono s s1"
      "\<And>k. target b d = Some k \<Longrightarrow>
         \<exists>w. g_score s1 (cur[b := cur ! k, k := cur ! b]) = Some w \<and> w \<le> g0 + 1"
    by blast
  from Cons.IH [OF ds s1(2,3)] obtain s'
    where s': "visit_all goal cur b ds s1 = Inr s'" "expanding initial goal cur s'"
      "g_score s' cur = Some g0" "g_mono s1 s'"
      "\<And>d' k. d' \<in> set ds \<Longrightarrow> target b d' = Some k \<Longrightarrow>
         \<exists>w. g_score s' (cur[b := cur ! k, k := cur ! b]) = Some w \<and> w \<le> g0 + 1"
    by blast
  have first: "\<exists>w. g_score s' (cur[b := cur ! k, k := cur ! b]) = Some w \<and> w \<le> g0 + 1"
    if "target b d = Some k" for k
  proof -
    from s1(5) [OF that] obtain w
      where "g_score s1 (cur[b := cur ! k, k := cur ! b]) = Some w" "w \<le> g0 + 1" by blast
    with s'(4) show ?thesis unfolding g_mono_def by (meson order_trans)
  qed
  have "visit_all goal cur b (d # ds) s = Inr s'" using s1(1) s'(1) by simp
  moreover have "g_mono s s'" using s1(4) s'(4) by (rule g_mono_trans)
  moreover have "\<forall>d' \<in> set (d # ds). \<forall>k. target b d' = Some k \<longrightarrow>
              (\<exists>w. g_score s' (cur[b := cur ! k, k := cur ! b]) = Some w \<and> w \<le> g0 + 1)"
    using first s'(5) by auto
  ultimately show ?case using s'(2,3) by blast
qed

lemma pop_expanding:
  assumes inv: "inv_search initial goal s" and q: "open_set s \<noteq> []"
    and ne: "snd (fst (pq_get (open_set s))) \<noteq> goal"
  shows "expanding initial goal (snd (fst (pq_get (open_set s))))
           (s\<lparr>open_set := snd (pq_get (open_set s))\<rparr>)"
proof -
  let ?cur = "snd (fst (pq_get (open_set s)))"
  let ?s1 = "s\<lparr>open_set := snd (pq_get (open_set s))\<rparr>"
  have keep: "e \<in> set (open_set ?s1)" if "e \<in> set (open_set s)" "snd e \<noteq> ?cur" for e
    using pq_get_rest_cover [of e "open_set s"] that by auto
  have sub: "e \<in> set (open_set s)" if "e \<in> set (open_set ?s1)" for e
    using pq_get_rest_subset [of "open_set s"] that by auto
  from inv have basic: "inv_basic initial ?s1" by (simp add: inv_search_def pop_basic)
  from inv have links: "inv_links initial ?s1" by (simp add: inv_search_def inv_links_def)
  have queue: "inv_queue initial goal ?s1"
    unfolding inv_queue_def
  proof (intro conjI ballI impI)
    fix e assume "e \<in> set (open_set ?s1)"
    then have "e \<in> set (open_set s)" by (rule sub)
    with inv show "snd e = initial \<or>
        (\<exists>v. g_score ?s1 (snd e) = Some v \<and> v + heuristic goal (snd e) \<le> fst e)"
      by (auto simp: inv_search_def inv_queue_def)
  next
    assume "goal \<in> dom (g_score ?s1)"
    with inv obtain e where e: "e \<in> set (open_set s)" "snd e = goal"
      by (auto simp: inv_search_def inv_queue_def)
    with ne keep [of e] show "goal \<in> snd ` set (open_set ?s1)" by (auto simp: image_iff)
  qed
  have st: "settled goal ?s1 n" if n: "n \<noteq> ?cur" for n
  proof -
    from inv have "settled goal s n" by (simp add: inv_search_def)
    then show ?thesis
      unfolding settled_def using keep n by (simp; blast)
  qed
  from basic links queue st show ?thesis unfolding expanding_def by blast
qed

lemma expand_valid:
  assumes vi: "valid_config initial" and vg: "valid_config goal"
    and inv: "inv_search initial goal s" and q: "open_set s \<noteq> []"
    and ne: "snd (fst (pq_get (open_set s))) \<noteq> goal"
  shows "\<exists>s2. expand goal (snd (fst (pq_get (open_set s))))
                 (s\<lparr>open_set := snd (pq_get (open_set s))\<rparr>) = Inr s2
              \<and> inv_search initial goal s2"
proof -
  let ?cur = "snd (fst (pq_get (open_set s)))"
  let ?s1 = "s\<lparr>open_set := snd (pq_get (open_set s))\<rparr>"
  from inv have basic: "inv_basic initial s" by (simp add: inv_search_def)
  with pq_get_mem [OF q] obtain g0 where g0: "g_score s ?cur = Some g0"
    by (auto simp: inv_basic_def)
  with basic have "?cur \<in> states_of initial" by (auto simp: inv_basic_def)
  then have vc: "valid_config ?cur" using valid_states_of [OF vi] by simp
  from valid_blank_index [OF vc] obtain b where b: "list_index ?cur BLANK_TILE = Inr b"
    by blast
  from g0 have g1: "g_score ?s1 ?cur = Some g0" by simp
  from visit_all_valid [OF vi vg vc b subset_refl pop_expanding [OF inv q ne] g1]
  obtain s2 where s2: "visit_all goal ?cur b directions ?s1 = Inr s2"
    "expanding initial goal ?cur s2" "g_score s2 ?cur = Some g0"
    "\<And>d k. d \<in> set directions \<Longrightarrow> target b d = Some k \<Longrightarrow>
       \<exists>w. g_score s2 (?cur[b := ?cur ! k, k := ?cur ! b]) = Some w \<and> w \<le> g0 + 1"
    by blast
  have "settled goal s2 ?cur"
    unfolding settled_def
  proof (intro allI impI disjI2)
    fix v m
    assume "g_score s2 ?cur = Some v" "legal_move ?cur m"
    with s2(3) have v: "v = g0" by simp
    from legal_move_target [OF vc b \<open>legal_move ?cur m\<close>] obtain d k
      where "d \<in> set directions" "target b d = Some k" "m = ?cur[b := ?cur ! k, k := ?cur ! b]"
      by blast
    with s2(4) [of d k] v show "\<exists>w. g_score s2 m = Some w \<and> w \<le> v + 1" by simp
  qed
  with s2(2) have "inv_search initial goal s2"
    unfolding inv_search_def expanding_def by (metis)
  moreover have "expand goal ?cur ?s1 = Inr s2"
    unfolding expand_def using b s2(1) by simp
  ultimately show ?thesis by blast
qed

subsection \<open>What the search returns on valid configurations\<close>

lemma inv_search_init:
  assumes "valid_config initial" "valid_config goal"
  shows "inv_search initial goal (init_search initial h)"
proof -
  have "inv_links initial (init_search initial h)"
    by (simp add: inv_links_def init_search_def)
  moreover have "inv_queue initial goal (init_search initial h)"
    by (auto simp: inv_queue_def init_search_def pq_put_def split: if_splits)
  moreover have "settled goal (init_search initial h) n" for n
    using heuristic_nonneg [OF assms]
    by (auto simp: settled_def init_search_def pq_put_def split: if_splits)
  ultimately show ?thesis
    unfolding inv_search_def using inv_basic_init by blast
qed

lemma moves_from_append:
  "moves_from c (xs @ [y]) = (moves_from c xs \<and> legal_move (last (c # xs)) y)"
  by (induction xs arbitrary: c) auto

lemma moves_from_relpow: "moves_from c xs \<Longrightarrow> (legal_move ^^ length xs) c (last (c # xs))"
proof (induction xs arbitrary: c)
  case Nil
  then show ?case by simp
next
  case (Cons x xs)
  then have "legal_move c x" "(legal_move ^^ length xs) x (last (x # xs))" by simp_all
  then show ?case using relpowp_Suc_I2 [of legal_move c x "length xs" "last (x # xs)"] by simp
qed

lemma inv_basic_link:
  assumes "inv_basic initial s" "came_from s n = Some p" "g_score s n = Some v"
  shows "\<exists>w. g_score s p = Some w \<and> w < v \<and> 0 \<le> w"
proof -
  from assms(1,2) obtain v' w where "g_score s n = Some v'" "g_score s p = Some w" "w < v'"
    unfolding inv_basic_def by blast
  moreover from this assms(1) have "0 \<le> w" unfolding inv_basic_def by blast
  ultimately show ?thesis using assms(3) by simp
qed

lemma links_path:
  assumes basic: "inv_basic initial s" and links: "inv_links initial s"
  shows "links (came_from s) cur ch \<Longrightarrow> g_score s cur = Some v \<Longrightarrow>
         moves_from initial (rev ch) \<and> last (initial # rev ch) = cur \<and> initial \<notin> set ch \<and>
         int (length ch) \<le> v"
proof (induction ch arbitrary: cur v)
  case Nil
  then have "cur \<notin> dom (came_from s)" "cur \<in> dom (g_score s)" by auto
  with links have "cur = initial" by (auto simp: inv_links_def)
  moreover have "0 \<le> v" using basic Nil.prems(2) by (auto simp: inv_basic_def)
  ultimately show ?case by simp
next
  case (Cons x xs)
  then obtain p where p: "x = cur" "came_from s cur = Some p" "links (came_from s) p xs"
    by auto
  with inv_basic_link [OF basic _ Cons.prems(2)] obtain w where w: "g_score s p = Some w" "w < v"
    by blast
  from Cons.IH [OF p(3) w(1)] have ih: "moves_from initial (rev xs)"
    "last (initial # rev xs) = p" "initial \<notin> set xs" "int (length xs) \<le> w" by simp_all
  from links p(2) have "legal_move p cur" "cur \<noteq> initial" by (auto simp: inv_links_def)
  with ih p(1) w(2) show ?case by (simp add: moves_from_append)
qed

lemma seen_reachable:
  assumes basic: "inv_basic initial s" and links: "inv_links initial s"
  shows "g_score s n = Some v \<Longrightarrow> reachable initial n"
proof (induction "nat v" arbitrary: n v rule: less_induct)
  case less
  show ?case
  proof (cases "came_from s n")
    case None
    with less.prems links have "n = initial" by (auto simp: inv_links_def)
    then show ?thesis by (simp add: reachable_def)
  next
    case (Some p)
    with inv_basic_link [OF basic _ less.prems] obtain w
      where w: "g_score s p = Some w" "w < v" "0 \<le> w"
      by blast
    then have "nat w < nat v" by simp
    from less.hyps [OF this w(1)] have "reachable initial p" .
    moreover from links Some have "legal_move p n" by (auto simp: inv_links_def)
    ultimately show ?thesis by (simp add: reachable_def)
  qed
qed

text \<open>
  On a shortest way from the start to \<open>t\<close>, either \<open>t\<close> already has a g-score no larger
  than its distance, or some state of the way is queued with a priority that
  underestimates the length of the way through it.
\<close>

lemma frontier:
  assumes st: "\<And>n. settled goal s n" and g0: "g_score s initial = Some 0"
  shows "(legal_move ^^ k) initial t \<Longrightarrow>
         (\<exists>w. g_score s t = Some w \<and> w \<le> int k) \<or>
         (\<exists>j u w e. j \<le> k \<and> (legal_move ^^ (k - j)) u t \<and> g_score s u = Some w \<and>
            w \<le> int j \<and> e \<in> set (open_set s) \<and> snd e = u \<and> fst e \<le> w + heuristic goal u)"
proof (induction k arbitrary: t)
  case 0
  then show ?case using g0 by simp
next
  case (Suc k)
  from Suc.prems obtain y where y: "(legal_move ^^ k) initial y" "legal_move y t"
    by auto
  from Suc.IH [OF y(1)] consider
    (near) w where "g_score s y = Some w" "w \<le> int k"
    | (far) j u w e where "j \<le> k" "(legal_move ^^ (k - j)) u y" "g_score s u = Some w"
      "w \<le> int j" "e \<in> set (open_set s)" "snd e = u" "fst e \<le> w + heuristic goal u"
    by blast
  then show ?case
  proof cases
    case near
    from st [of y] near(1) consider
      (queued) e where "e \<in> set (open_set s)" "snd e = y" "fst e \<le> w + heuristic goal y"
      | (closed) "\<forall>m. legal_move y m \<longrightarrow> (\<exists>w'. g_score s m = Some w' \<and> w' \<le> w + 1)"
      unfolding settled_def by blast
    then show ?thesis
    proof cases
      case queued
      have "(legal_move ^^ (Suc k - k)) y t" using y(2) by (simp add: relcompp_apply)
      with near queued show ?thesis
        by (intro disjI2 exI [of _ k] exI [of _ y] exI [of _ w] exI [of _ e]) simp
    next
      case closed
      with y(2) near(2) show ?thesis by fastforce
    qed
  next
    case far
    have "(legal_move ^^ Suc (k - j)) u t" using far(2) y(2) by auto
    moreover have "Suc k - j = Suc (k - j)" using far(1) by simp
    ultimately have "(legal_move ^^ (Suc k - j)) u t" by simp
    with far show ?thesis
      by (intro disjI2 exI [of _ j] exI [of _ u] exI [of _ w] exI [of _ e]) simp
  qed
qed

lemma reachable_min_moves:
  "reachable initial goal \<Longrightarrow> (legal_move ^^ min_moves initial goal) initial goal"
  unfolding reachable_def min_moves_def
  by (auto simp: rtranclp_power intro: LeastI)

lemma min_moves_le: "(legal_move ^^ n) initial goal \<Longrightarrow> min_moves initial goal \<le> n"
  unfolding min_moves_def by (rule Least_le)

lemma relpow_reachable: "(legal_move ^^ n) initial goal \<Longrightarrow> reachable initial goal"
  unfolding reachable_def by (auto simp: rtranclp_power)

lemma found_optimal:
  assumes vi: "valid_config initial" and vg: "valid_config goal"
    and inv: "inv_search initial goal s" and q: "open_set s \<noteq> []"
    and cur: "snd (fst (pq_get (open_set s))) = goal"
    and ch: "links (came_from s) goal ch"
  shows "moves_from initial (rev ch) \<and> last (initial # rev ch) = goal \<and>
         initial \<notin> set (rev ch) \<and> length (rev ch) = min_moves initial goal \<and>
         reachable initial goal"
proof -
  from inv have basic: "inv_basic initial s" and links: "inv_links initial s"
    and queue: "inv_queue initial goal s" and st: "\<And>n. settled goal s n"
    by (simp_all add: inv_search_def)
  let ?e0 = "fst (pq_get (open_set s))"
  have e0: "?e0 \<in> set (open_set s)" using q by (rule pq_get_mem)
  with basic cur obtain G where G: "g_score s goal = Some G"
    by (auto simp: inv_basic_def)
  from links_path [OF basic links ch G]
  have path: "moves_from initial (rev ch)" "last (initial # rev ch) = goal"
    "initial \<notin> set ch" "int (length ch) \<le> G" by simp_all
  have reach: "reachable initial goal" using seen_reachable [OF basic links G] .
  let ?k = "min_moves initial goal"
  have way: "(legal_move ^^ ?k) initial goal" using reach by (rule reachable_min_moves)
  from links have g0: "g_score s initial = Some 0" by (simp add: inv_links_def)
  have first: "goal = initial \<or> G + heuristic goal goal \<le> fst ?e0"
  proof -
    from queue e0 have "snd ?e0 = initial \<or>
        (\<exists>v. g_score s (snd ?e0) = Some v \<and> v + heuristic goal (snd ?e0) \<le> fst ?e0)"
      unfolding inv_queue_def by blast
    then show ?thesis unfolding cur using G by auto
  qed
  have "G \<le> int ?k"
    using frontier [OF st g0 way]
  proof (elim disjE exE conjE)
    fix w assume "g_score s goal = Some w" "w \<le> int ?k"
    with G show ?thesis by simp
  next
    fix j u w e
    assume f: "j \<le> ?k" "(legal_move ^^ (?k - j)) u goal" "g_score s u = Some w"
      "w \<le> int j" "e \<in> set (open_set s)" "snd e = u" "fst e \<le> w + heuristic goal u"
    from basic f(3) have "u \<in> states_of initial" by (auto simp: inv_basic_def)
    then have "valid_config u" using valid_states_of [OF vi] by simp
    from heuristic_admissible [OF vg f(2) this] have "heuristic goal u \<le> int (?k - j)" .
    with f(1,4,7) have "fst e \<le> int ?k" by simp
    moreover have "fst ?e0 \<le> fst e" using pq_get_le [OF q f(5)] .
    ultimately have le: "fst ?e0 \<le> int ?k" by simp
    from first show ?thesis
    proof
      assume "goal = initial"
      with g0 G show ?thesis by simp
    next
      assume "G + heuristic goal goal \<le> fst ?e0"
      with le heuristic_goal [OF vg] show ?thesis by simp
    qed
  qed
  with path(4) have "length ch \<le> ?k" by simp
  moreover have "?k \<le> length (rev ch)"
    using moves_from_relpow [OF path(1)] path(2) by (intro min_moves_le) simp
  ultimately have "length (rev ch) = ?k" by simp
  with path reach show ?thesis by simp
qed

lemma empty_unreachable:
  assumes inv: "inv_search initial goal s" and q: "open_set s = []"
  shows "\<not> reachable initial goal"
proof
  assume "reachable initial goal"
  then have way: "(legal_move ^^ min_moves initial goal) initial goal"
    by (rule reachable_min_moves)
  from inv have links: "inv_links initial s"
    and queue: "inv_queue initial goal s" and st: "\<And>n. settled goal s n"
    by (simp_all add: inv_search_def)
  from links have g0: "g_score s initial = Some 0" by (simp add: inv_links_def)
  from frontier [OF st g0 way] q have "goal \<in> dom (g_score s)" by auto
  with queue q show False by (simp add: inv_queue_def)
qed

lemma a_star_solver_valid:
  assumes vi: "valid_config initial" and vg: "valid_config goal"
  shows "\<exists>path. a_star_solver initial goal = Some (Inr path) \<and>
           (if reachable initial goal
            then moves_from initial path \<and> last (initial # path) = goal \<and>
                 initial \<notin> set path \<and> length path = min_moves initial goal
            else path = [])"
proof -
  let ?P = "\<lambda>path. if reachable initial goal
            then moves_from initial path \<and> last (initial # path) = goal \<and>
                 initial \<notin> set path \<and> length path = min_moves initial goal
            else path = []"
  obtain h where h: "manhattan_distance initial goal = Inr h"
    using manhattan_distance_valid [OF vi vg] by blast
  have "\<exists>r. a_star_loop goal (init_search initial h) = Some r \<and> (\<exists>path. r = Inr path \<and> ?P path)"
  proof (rule a_star_loop_rule [where I = "inv_search initial goal" and initial = initial])
    show "inv_search initial goal (init_search initial h)"
      using vi vg by (rule inv_search_init)
  next
    fix s assume "inv_search initial goal s"
    then show "inv_basic initial s" by (simp add: inv_search_def)
  next
    fix s s2
    assume "inv_search initial goal s" "open_set s \<noteq> []"
      "snd (fst (pq_get (open_set s))) \<noteq> goal"
      "expand goal (snd (fst (pq_get (open_set s)))) (s\<lparr>open_set := snd (pq_get (open_set s))\<rparr>)
         = Inr s2"
    with expand_valid [OF vi vg this(1,2,3)] show "inv_search initial goal s2" by auto
  next
    fix s assume "inv_search initial goal s" "open_set s = []"
    from empty_unreachable [OF this]
    show "\<exists>path. (Inr [] :: py_error + int list list) = Inr path \<and> ?P path" by simp
  next
    fix s ch
    assume "inv_search initial goal s" "open_set s \<noteq> []"
      "snd (fst (pq_get (open_set s))) = goal" "links (came_from s) goal ch"
    from found_optimal [OF vi vg this]
    show "\<exists>path. (Inr (rev ch) :: py_error + int list list) = Inr path \<and> ?P path" by simp
  next
    fix s e
    assume "inv_search initial goal s" "open_set s \<noteq> []"
      "snd (fst (pq_get (open_set s))) \<noteq> goal"
      "expand goal (snd (fst (pq_get (open_set s)))) (s\<lparr>open_set := snd (pq_get (open_set s))\<rparr>)
         = Inl e"
    with expand_valid [OF vi vg this(1,2,3)]
    show "\<exists>path. (Inl e :: py_error + int list list) = Inr path \<and> ?P path" by auto
  qed
  then obtain path where path: "a_star_loop goal (init_search initial h) = Some (Inr path)"
    "?P path" by blast
  from path(1) have "a_star_solver initial goal = Some (Inr path)"
    by (simp add: a_star_solver_unfold h)
  with path(2) show ?thesis by blast
qed

subsection \<open>A move keeps the parity of the inversions\<close>

lemma cross_simps [simp]:
  "cross [] ys = 0"
  "cross (x # xs) ys = length (filter (\<lambda>y. x > y) ys) + cross xs ys"
  "cross (xs @ xs') ys = cross xs ys + cross xs' ys"
  by (simp_all add: cross_def)

lemma cross_append_right: "cross xs (ys @ zs) = cross xs ys + cross xs zs"
  by (induction xs) simp_all

lemma spec_inversions_append:
  "spec_inversions (xs @ ys) = spec_inversions xs + cross xs ys + spec_inversions ys"
  by (induction xs) simp_all

lemma cross_single: "cross xs [t] = length (filter (\<lambda>x. x > t) xs)"
  by (induction xs) simp_all

lemma split_by_tile:
  "(t::int) \<notin> set ms \<Longrightarrow>
   length (filter (\<lambda>m. t > m) ms) + length (filter (\<lambda>m. m > t) ms) = length ms"
  by (induction ms) auto

lemma spec_inversions_three:
  "spec_inversions (xs @ us @ ys)
   = spec_inversions xs + cross xs us + cross xs ys
     + spec_inversions us + cross us ys + spec_inversions ys"
  by (simp only: spec_inversions_append cross_append_right)

lemma jump_parity:
  assumes "t \<notin> set ms" "even (length ms)"
  shows "even (spec_inversions (xs @ t # ms @ ys)) = even (spec_inversions (xs @ ms @ t # ys))"
proof -
  define us where "us = t # ms"
  define vs where "vs = ms @ [t]"
  let ?a = "length (filter (\<lambda>m. t > m) ms)" and ?b = "length (filter (\<lambda>m. m > t) ms)"
  have "even (?a + ?b)" using split_by_tile [OF assms(1)] assms(2) by simp
  then have ab: "even ?a = even ?b" by simp
  have mid: "even (spec_inversions us) = even (spec_inversions vs)"
    unfolding us_def vs_def using ab by (auto simp: spec_inversions_append cross_single)
  have c1: "cross xs us = cross xs vs"
    unfolding us_def vs_def by (induction xs) simp_all
  have c2: "cross us ys = cross vs ys"
    unfolding us_def vs_def by simp
  have "even (spec_inversions (xs @ us @ ys)) = even (spec_inversions (xs @ vs @ ys))"
    unfolding spec_inversions_three c1 c2 using mid by simp
  then show ?thesis unfolding us_def vs_def by simp
qed

lemma swap_decomposition:
  assumes "i < j" "j < length xs"
  obtains A M B where "xs = A @ xs ! i # M @ xs ! j # B" "length A = i" "length M = j - Suc i"
proof -
  let ?R = "drop (Suc i) xs"
  have i: "i < length xs" using assms by simp
  have xs: "xs = take i xs @ xs ! i # ?R" using i by (rule id_take_nth_drop)
  have r: "j - Suc i < length ?R" using assms by simp
  have "?R = take (j - Suc i) ?R @ ?R ! (j - Suc i) # drop (Suc (j - Suc i)) ?R"
    using r by (rule id_take_nth_drop)
  moreover have "?R ! (j - Suc i) = xs ! j" using assms by simp
  ultimately have R: "?R = take (j - Suc i) ?R @ xs ! j # drop (Suc (j - Suc i)) ?R" by simp
  show ?thesis
  proof (rule that [of "take i xs" "take (j - Suc i) ?R" "drop (Suc (j - Suc i)) ?R"])
    show "xs = take i xs @ xs ! i # take (j - Suc i) ?R @ xs ! j # drop (Suc (j - Suc i)) ?R"
      using xs R by metis
    show "length (take i xs) = i" using i by simp
    show "length (take (j - Suc i) ?R) = j - Suc i" using r by simp
  qed
qed

lemma update_decomposed:
  "(A @ x # M @ y # B)[length A := a, Suc (length A + length M) := b] = A @ a # M @ b # B"
  by (simp add: list_update_append)

lemma swap_blank_parity:
  assumes d: "distinct (A @ x # M @ y # B)" and blank: "x = BLANK_TILE \<or> y = BLANK_TILE"
    and ev: "even (length M)"
  shows "is_solvable (A @ x # M @ y # B) = is_solvable (A @ y # M @ x # B)"
proof -
  let ?f = "filter (\<lambda>t. t \<noteq> BLANK_TILE)"
  from d blank have m: "?f M = M" by (auto simp: filter_id_conv)
  from d have xy: "x \<noteq> y" "x \<notin> set M" "y \<notin> set M" by auto
  from blank show ?thesis
  proof
    assume x: "x = BLANK_TILE"
    with xy have y: "y \<noteq> BLANK_TILE" by simp
    have "?f (A @ x # M @ y # B) = ?f A @ M @ y # ?f B"
      "?f (A @ y # M @ x # B) = ?f A @ y # M @ ?f B"
      using x y m by simp_all
    then show ?thesis
      using jump_parity [OF xy(3) ev, of "?f A" "?f B"] by (simp add: is_solvable_iff)
  next
    assume y: "y = BLANK_TILE"
    with xy have x: "x \<noteq> BLANK_TILE" by simp
    have "?f (A @ x # M @ y # B) = ?f A @ x # M @ ?f B"
      "?f (A @ y # M @ x # B) = ?f A @ M @ x # ?f B"
      using x y m by simp_all
    then show ?thesis
      using jump_parity [OF xy(2) ev, of "?f A" "?f B"] by (simp add: is_solvable_iff)
  qed
qed

lemma swap_parity:
  assumes d: "distinct c" and ij: "i < j" "j < length c"
    and blank: "c ! i = BLANK_TILE \<or> c ! j = BLANK_TILE" and ev: "even (j - Suc i)"
  shows "is_solvable (c[i := c ! j, j := c ! i]) = is_solvable c"
proof -
  from swap_decomposition [OF ij] obtain A M B
    where c: "c = A @ c ! i # M @ c ! j # B" "length A = i" "length M = j - Suc i"
    by blast
  have j: "j = Suc (length A + length M)" using c(2,3) ij by simp
  have "c[i := c ! j, j := c ! i] = (A @ c ! i # M @ c ! j # B)[i := c ! j, j := c ! i]"
    using c(1) by simp
  also have "\<dots> = A @ c ! j # M @ c ! i # B"
    using update_decomposed [of A "c ! i" M "c ! j" B "c ! j" "c ! i"] c(2) j by simp
  finally have c': "c[i := c ! j, j := c ! i] = A @ c ! j # M @ c ! i # B" .
  have "distinct (A @ c ! i # M @ c ! j # B)" using d c(1) by simp
  from swap_blank_parity [OF this blank] ev c(3)
  have "is_solvable (A @ c ! i # M @ c ! j # B) = is_solvable (A @ c ! j # M @ c ! i # B)"
    by simp
  with c' c(1) show ?thesis by simp
qed

lemma legal_move_parity:
  assumes v: "valid_config c" and m: "legal_move c c'"
  shows "is_solvable c' = is_solvable c"
proof -
  have len: "length c = 9" using v by (rule valid_length)
  have d: "distinct c" using v by (simp add: valid_config_def)
  from m len obtain b k where bk: "b < 9" "k < 9" "c ! b = BLANK_TILE" "adjacent b k"
    "c' = c[b := c ! k, k := c ! b]"
    by (auto simp: legal_move_iff)
  from adjacent_iff [OF bk(1,2)] bk(4)
  have near: "k + 3 = b \<or> k = b + 3 \<or> k + 1 = b \<or> k = b + 1" by blast
  show ?thesis
  proof (cases "b < k")
    case True
    with near have "even (k - Suc b)" by auto
    from swap_parity [OF d True _ _ this] bk(2,3,5) len show ?thesis by simp
  next
    case False
    with near have lt: "k < b" and ev: "even (b - Suc k)" by auto
    have "c' = c[k := c ! b, b := c ! k]"
      unfolding bk(5) using lt by (simp add: list_update_swap)
    with swap_parity [OF d lt _ _ ev] bk(1,3) len show ?thesis by simp
  qed
qed

lemma reachable_parity:
  assumes "valid_config c" "reachable c c'"
  shows "valid_config c' \<and> is_solvable c' = is_solvable c"
  using assms(2) unfolding reachable_def
proof (induction rule: rtranclp_induct)
  case base
  then show ?case using assms(1) by simp
next
  case (step y z)
  then show ?case using legal_move_valid [of y z] legal_move_parity [of y z] by simp
qed

subsection \<open>The heuristic as a sum over the tiles\<close>

lemma grid_distance_sym: "grid_distance a b = grid_distance b a"
  by (simp add: grid_distance_def abs_minus_commute)

lemma non_blank_tiles:
  "valid_config c \<Longrightarrow>
   (\<lambda>j. c ! j) ` {j \<in> {0 ..< length c}. c ! j \<noteq> BLANK_TILE}
     = set [1 .. int (GRID_SIZE * GRID_SIZE) - 1]"
proof -
  assume v: "valid_config c"
  have "(\<lambda>j. c ! j) ` {j \<in> {0 ..< length c}. c ! j \<noteq> BLANK_TILE} = set c - {BLANK_TILE}"
    by (auto simp: in_set_conv_nth)
  also have "\<dots> = set [1 .. int (GRID_SIZE * GRID_SIZE) - 1]"
    using v by (auto simp: valid_config_def all_tiles_def BLANK_TILE_def)
  finally show ?thesis .
qed

lemma cell_sum_spec:
  assumes v: "valid_config c"
  shows "cell_sum goal c = spec_manhattan c goal"
proof -
  let ?J = "{j \<in> {0 ..< length c}. c ! j \<noteq> BLANK_TILE}"
  let ?G = "\<lambda>t. grid_distance (position c t) (position goal t)"
  have d: "distinct c" using v by (simp add: valid_config_def)
  have inj: "inj_on (\<lambda>j. c ! j) ?J"
    using d by (auto simp: inj_on_def nth_eq_iff_index_eq)
  have "cell_sum goal c = (\<Sum>j \<in> ?J. grid_distance (position goal (c ! j)) j)"
    unfolding cell_sum_def
    using sum.inter_filter [of "{0 ..< length c}" "\<lambda>j. grid_distance (position goal (c ! j)) j"
        "\<lambda>j. c ! j \<noteq> BLANK_TILE"]
    by simp
  also have "\<dots> = (\<Sum>j \<in> ?J. ?G (c ! j))"
    using d by (intro sum.cong refl) (simp add: position_nth grid_distance_sym)
  also have "\<dots> = sum ?G ((\<lambda>j. c ! j) ` ?J)"
    using inj by (simp add: sum.reindex)
  also have "\<dots> = sum ?G (set [1 .. int (GRID_SIZE * GRID_SIZE) - 1])"
    using non_blank_tiles [OF v] by simp
  also have "\<dots> = spec_manhattan c goal"
    unfolding spec_manhattan_def by (simp add: sum_list_distinct_conv_sum_set)
  finally show ?thesis .
qed

subsection \<open>The scenarios of the specification\<close>

lemma scenario_valid:
  "valid_config [1, 2, 3, 4, BLANK_TILE, 6, 7, 5, 8]"
  "valid_config [1, 2, 3, 4, 5, 6, 7, BLANK_TILE, 8]"
  "valid_config [1, 2, 3, 4, 5, 6, 7, 8, BLANK_TILE]"
  "valid_config [2, 1, 3, 4, 5, 6, 7, 8, BLANK_TILE]"
  by code_simp+

lemma scenario_moves:
  "legal_move [1, 2, 3, 4, BLANK_TILE, 6, 7, 5, 8] [1, 2, 3, 4, 5, 6, 7, BLANK_TILE, 8]"
  "legal_move [1, 2, 3, 4, 5, 6, 7, BLANK_TILE, 8] [1, 2, 3, 4, 5, 6, 7, 8, BLANK_TILE]"
  "legal_move [1, 2, 3, 4, 5, 6, 7, 8, BLANK_TILE] [1, 2, 3, 4, 5, 6, 7, BLANK_TILE, 8]"
  "legal_move [1, 2, 3, 4, 5, 6, 7, BLANK_TILE, 8] [1, 2, 3, 4, BLANK_TILE, 6, 7, 5, 8]"
  by code_simp+

lemma reachable_refl: "reachable a a"
  by (simp add: reachable_def)

lemma reachable_step: "reachable a b \<Longrightarrow> legal_move b c \<Longrightarrow> reachable a c"
  by (simp add: reachable_def)

lemma scenario_reachable:
  "reachable [1, 2, 3, 4, BLANK_TILE, 6, 7, 5, 8] [1, 2, 3, 4, 5, 6, 7, 8, BLANK_TILE]"
  by (rule reachable_step [OF reachable_step [OF reachable_refl scenario_moves(1)]
        scenario_moves(2)])

lemma scenario_back:
  "reachable [1, 2, 3, 4, 5, 6, 7, 8, BLANK_TILE] [1, 2, 3, 4, 5, 6, 7, BLANK_TILE, 8]"
  by (rule reachable_step [OF reachable_refl scenario_moves(3)])

lemma scenario_solution:
  "a_star_solver [1, 2, 3, 4, BLANK_TILE, 6, 7, 5, 8] [1, 2, 3, 4, 5, 6, 7, 8, BLANK_TILE]
   = Some (Inr [[1, 2, 3, 4, 5, 6, 7, BLANK_TILE, 8], [1, 2, 3, 4, 5, 6, 7, 8, BLANK_TILE]])"
  by code_simp

lemma transposition_unreachable:
  "\<not> reachable [2, 1, 3, 4, 5, 6, 7, 8, BLANK_TILE] [1, 2, 3, 4, 5, 6, 7, 8, BLANK_TILE]"
proof
  assume "reachable [2, 1, 3, 4, 5, 6, 7, 8, BLANK_TILE] [1, 2, 3, 4, 5, 6, 7, 8, BLANK_TILE]"
  from reachable_parity [OF scenario_valid(4) this]
  have "is_solvable [1, 2, 3, 4, 5, 6, 7, 8, BLANK_TILE]
        = is_solvable [2, 1, 3, 4, 5, 6, 7, 8, BLANK_TILE]" by simp
  moreover have "is_solvable [1, 2, 3, 4, 5, 6, 7, 8, BLANK_TILE]"
    "\<not> is_solvable [2, 1, 3, 4, 5, 6, 7, 8, BLANK_TILE]" by code_simp+
  ultimately show False by simp
qed

subsection \<open>The claims about the search\<close>

text \<open>
  Claim C1. For valid 3x3 configurations with the goal reachable from the start by legal
  moves, the solver returns a sequence whose length is the least number of legal moves
  that lead from the start to the goal: a chain of that many legal moves exists and no
  shorter one does. The proof rests on the heuristic never exceeding the remaining
  distance (\<open>heuristic_admissible\<close>), one move changing it by at most one
  (\<open>heuristic_step\<close>).
\<close>

theorem a_star_solver_shortest:
  assumes "valid_config start" "valid_config goal" "reachable start goal"
  shows "\<exists>path. a_star_solver start goal = Some (Inr path) \<and>
           length path = min_moves start goal \<and>
           (legal_move ^^ length path) start goal \<and>
           (\<forall>n. (legal_move ^^ n) start goal \<longrightarrow> length path \<le> n)"
proof -
  from a_star_solver_valid [OF assms(1,2)] obtain path
    where p: "a_star_solver start goal = Some (Inr path)"
      "if reachable start goal
       then moves_from start path \<and> last (start # path) = goal \<and>
            start \<notin> set path \<and> length path = min_moves start goal
       else path = []"
    by (elim exE conjE)
  note q = p(2) [unfolded eqTrueI [OF assms(3)] if_True]
  from q have len: "length path = min_moves start goal" by (simp only: simp_thms)
  have "(legal_move ^^ length path) start goal"
    unfolding len using assms(3) by (rule reachable_min_moves)
  moreover have "\<forall>n. (legal_move ^^ n) start goal \<longrightarrow> length path \<le> n"
    unfolding len by (intro allI impI min_moves_le)
  ultimately show ?thesis using p(1) len by (intro exI [of _ path]) (simp only: simp_thms)
qed

theorem a_star_solver_shortest_witness:
  "valid_config [1, 2, 3, 4, BLANK_TILE, 6, 7, 5, 8] \<and>
   valid_config [1, 2, 3, 4, 5, 6, 7, 8, BLANK_TILE] \<and>
   reachable [1, 2, 3, 4, BLANK_TILE, 6, 7, 5, 8] [1, 2, 3, 4, 5, 6, 7, 8, BLANK_TILE] \<and>
   (\<exists>path. a_star_solver [1, 2, 3, 4, BLANK_TILE, 6, 7, 5, 8]
                           [1, 2, 3, 4, 5, 6, 7, 8, BLANK_TILE] = Some (Inr path) \<and>
      length path = min_moves [1, 2, 3, 4, BLANK_TILE, 6, 7, 5, 8]
                              [1, 2, 3, 4, 5, 6, 7, 8, BLANK_TILE])"
proof -
  from a_star_solver_shortest [OF scenario_valid(1) scenario_valid(3) scenario_reachable]
  obtain path
    where "a_star_solver [1, 2, 3, 4, BLANK_TILE, 6, 7, 5, 8]
                         [1, 2, 3, 4, 5, 6, 7, 8, BLANK_TILE] = Some (Inr path)"
      "length path = min_moves [1, 2, 3, 4, BLANK_TILE, 6, 7, 5, 8]
                               [1, 2, 3, 4, 5, 6, 7, 8, BLANK_TILE]"
    by (elim exE conjE)
  then have "\<exists>path. a_star_solver [1, 2, 3, 4, BLANK_TILE, 6, 7, 5, 8]
                           [1, 2, 3, 4, 5, 6, 7, 8, BLANK_TILE] = Some (Inr path) \<and>
      length path = min_moves [1, 2, 3, 4, BLANK_TILE, 6, 7, 5, 8]
                              [1, 2, 3, 4, 5, 6, 7, 8, BLANK_TILE]"
    by (intro exI [of _ path] conjI)
  then show ?thesis
    by (intro conjI scenario_valid(1) scenario_valid(3) scenario_reachable)
qed

text \<open>
  Claim C4, amended. For start = [1,2,3,4,blank,6,7,5,8] and goal = [1,2,3,4,5,6,7,8,blank],
  \<open>is_solvable\<close> returns true for the start and the solver returns the two configurations
  [1,2,3,4,5,6,7,blank,8] and the goal: a non-empty sequence ending in the goal whose
  length 2 is the least number of moves.
\<close>

theorem scenario_two_moves:
  "is_solvable [1, 2, 3, 4, BLANK_TILE, 6, 7, 5, 8] \<and>
   a_star_solver [1, 2, 3, 4, BLANK_TILE, 6, 7, 5, 8] [1, 2, 3, 4, 5, 6, 7, 8, BLANK_TILE]
     = Some (Inr [[1, 2, 3, 4, 5, 6, 7, BLANK_TILE, 8], [1, 2, 3, 4, 5, 6, 7, 8, BLANK_TILE]]) \<and>
   min_moves [1, 2, 3, 4, BLANK_TILE, 6, 7, 5, 8] [1, 2, 3, 4, 5, 6, 7, 8, BLANK_TILE] = 2"
proof -
  have "is_solvable [1, 2, 3, 4, BLANK_TILE, 6, 7, 5, 8]" by code_simp
  moreover from a_star_solver_valid [OF scenario_valid(1) scenario_valid(3)] scenario_reachable
  have "min_moves [1, 2, 3, 4, BLANK_TILE, 6, 7, 5, 8] [1, 2, 3, 4, 5, 6, 7, 8, BLANK_TILE] = 2"
    unfolding scenario_solution by auto
  ultimately show ?thesis using scenario_solution by simp
qed

text \<open>
  Claim C6. For valid configurations with the goal reachable from the start, the returned
  sequence does not contain the start, each of its elements is one legal move away from
  the element before it (from the start, for the first), and it ends in the goal: the
  last element of the start followed by the sequence is the goal, so a non-empty
  sequence has the goal last and the sequence is empty only when the start is the goal.
\<close>

theorem a_star_solver_path:
  assumes "valid_config start" "valid_config goal" "reachable start goal"
  shows "\<exists>path. a_star_solver start goal = Some (Inr path) \<and> start \<notin> set path \<and>
           last (start # path) = goal \<and> moves_from start path"
proof -
  from a_star_solver_valid [OF assms(1,2)] obtain path
    where p: "a_star_solver start goal = Some (Inr path)"
      "if reachable start goal
       then moves_from start path \<and> last (start # path) = goal \<and>
            start \<notin> set path \<and> length path = min_moves start goal
       else path = []"
    by (elim exE conjE)
  note q = p(2) [unfolded eqTrueI [OF assms(3)] if_True]
  from p(1) q show ?thesis by (intro exI [of _ path]) (simp only: simp_thms)
qed

theorem a_star_solver_path_witness:
  "valid_config [1, 2, 3, 4, BLANK_TILE, 6, 7, 5, 8] \<and>
   valid_config [1, 2, 3, 4, 5, 6, 7, 8, BLANK_TILE] \<and>
   reachable [1, 2, 3, 4, BLANK_TILE, 6, 7, 5, 8] [1, 2, 3, 4, 5, 6, 7, 8, BLANK_TILE] \<and>
   (\<exists>path. a_star_solver [1, 2, 3, 4, BLANK_TILE, 6, 7, 5, 8]
                           [1, 2, 3, 4, 5, 6, 7, 8, BLANK_TILE] = Some (Inr path) \<and>
      [1, 2, 3, 4, BLANK_TILE, 6, 7, 5, 8] \<notin> set path \<and>
      last ([1, 2, 3, 4, BLANK_TILE, 6, 7, 5, 8] # path) = [1, 2, 3, 4, 5, 6, 7, 8, BLANK_TILE] \<and>
      moves_from [1, 2, 3, 4, BLANK_TILE, 6, 7, 5, 8] path)"
  by (intro conjI scenario_valid(1) scenario_valid(3) scenario_reachable
      a_star_solver_path [OF scenario_valid(1) scenario_valid(3) scenario_reachable])

text \<open>
  Claim C7. For every pair of valid configurations the call terminates and returns a
  sequence, without raising; when the goal cannot be reached from the start by legal
  moves, the sequence is empty.
\<close>

theorem a_star_solver_terminates:
  assumes "valid_config start" "valid_config goal"
  shows "\<exists>path. a_star_solver start goal = Some (Inr path) \<and>
           (\<not> reachable start goal \<longrightarrow> path = [])"
  using a_star_solver_valid [OF assms] by auto

theorem a_star_solver_terminates_witness:
  "valid_config [2, 1, 3, 4, 5, 6, 7, 8, BLANK_TILE] \<and>
   valid_config [1, 2, 3, 4, 5, 6, 7, 8, BLANK_TILE] \<and>
   \<not> reachable [2, 1, 3, 4, 5, 6, 7, 8, BLANK_TILE] [1, 2, 3, 4, 5, 6, 7, 8, BLANK_TILE] \<and>
   a_star_solver [2, 1, 3, 4, 5, 6, 7, 8, BLANK_TILE] [1, 2, 3, 4, 5, 6, 7, 8, BLANK_TILE]
     = Some (Inr [])"
  using a_star_solver_terminates [OF scenario_valid(4) scenario_valid(3)]
    scenario_valid(4) scenario_valid(3) transposition_unreachable
  by auto

text \<open>
  Claim C8. The verdict of \<open>is_solvable\<close> is the same for every configuration reachable
  from a valid goal configuration by legal moves, and one legal move from such a
  configuration does not change it.
\<close>

theorem is_solvable_invariant:
  assumes "valid_config goal" "reachable goal c"
  shows "is_solvable c = is_solvable goal \<and>
         (\<forall>c'. legal_move c c' \<longrightarrow> is_solvable c' = is_solvable c)"
  using reachable_parity [OF assms] legal_move_parity [of c] by blast

theorem is_solvable_invariant_witness:
  "valid_config [1, 2, 3, 4, 5, 6, 7, 8, BLANK_TILE] \<and>
   reachable [1, 2, 3, 4, 5, 6, 7, 8, BLANK_TILE] [1, 2, 3, 4, 5, 6, 7, BLANK_TILE, 8] \<and>
   legal_move [1, 2, 3, 4, 5, 6, 7, BLANK_TILE, 8] [1, 2, 3, 4, BLANK_TILE, 6, 7, 5, 8] \<and>
   is_solvable [1, 2, 3, 4, 5, 6, 7, BLANK_TILE, 8] = is_solvable [1, 2, 3, 4, 5, 6, 7, 8, BLANK_TILE] \<and>
   is_solvable [1, 2, 3, 4, BLANK_TILE, 6, 7, 5, 8] = is_solvable [1, 2, 3, 4, 5, 6, 7, BLANK_TILE, 8]"
  using is_solvable_invariant [OF scenario_valid(3) scenario_back]
    scenario_valid(3) scenario_back scenario_moves(4)
  by blast

text \<open>
  Claim C9. For valid configurations, \<open>manhattan_distance\<close> returns the sum, over the
  tiles 1 .. 8, of the Manhattan distance between the tile's position in the state and
  its position in the goal; the distance of the goal to itself is 0. As a HOL function
  it depends on nothing but its two arguments.
\<close>

theorem manhattan_distance_spec:
  assumes "valid_config state" "valid_config goal"
  shows "manhattan_distance state goal = Inr (spec_manhattan state goal) \<and>
         manhattan_distance goal goal = Inr 0"
  using manhattan_distance_valid [OF assms] manhattan_distance_valid [OF assms(2,2)]
    cell_sum_spec [OF assms(1), of goal] cell_sum_goal [of goal] assms(2)
  by (simp add: valid_config_def)

theorem manhattan_distance_spec_witness:
  "valid_config [1, 2, 3, 4, BLANK_TILE, 6, 7, 5, 8] \<and>
   valid_config [1, 2, 3, 4, 5, 6, 7, 8, BLANK_TILE] \<and>
   manhattan_distance [1, 2, 3, 4, BLANK_TILE, 6, 7, 5, 8] [1, 2, 3, 4, 5, 6, 7, 8, BLANK_TILE]
     = Inr (spec_manhattan [1, 2, 3, 4, BLANK_TILE, 6, 7, 5, 8] [1, 2, 3, 4, 5, 6, 7, 8, BLANK_TILE]) \<and>
   manhattan_distance [1, 2, 3, 4, 5, 6, 7, 8, BLANK_TILE] [1, 2, 3, 4, 5, 6, 7, 8, BLANK_TILE]
     = Inr 0"
  using manhattan_distance_spec [OF scenario_valid(1) scenario_valid(3)]
    scenario_valid(1) scenario_valid(3)
  by blast

end
